theory Spec2Isabelle
  imports Main
begin

section \<open>Values handled by the ban list\<close>

text \<open>
  Events arrive as parsed JSON. The code inspects string fields, tests values for
  truthiness and hands them on, so JSON values are modelled in full. Numbers are
  integers, as in Matrix canonical JSON.
\<close>

datatype json =
    JNull
  | JBool bool
  | JNum int
  | JStr string
  | JArr "json list"
  | JObj "(string \<times> json) list"

text \<open>JavaScript truthiness of a JSON value: \<open>null\<close>, \<open>false\<close>, \<open>0\<close> and \<open>""\<close> are falsy.\<close>

fun truthy :: "json \<Rightarrow> bool" where
  "truthy JNull = False"
| "truthy (JBool b) = b"
| "truthy (JNum n) = (n \<noteq> 0)"
| "truthy (JStr s) = (s \<noteq> [])"
| "truthy (JArr xs) = True"
| "truthy (JObj kvs) = True"

text \<open>A property read yields \<open>undefined\<close> (here \<open>None\<close>) when the key is absent; \<open>undefined\<close> is falsy.\<close>

fun truthy_opt :: "json option \<Rightarrow> bool" where
  "truthy_opt None = False"
| "truthy_opt (Some v) = truthy v"

text \<open>
  Failures: a \<open>TypeError\<close> raised by a property access on \<open>undefined\<close>, a request
  rejected by the homeserver with an HTTP status code, and any other rejection
  (which carries no \<open>statusCode\<close>).
\<close>

datatype error = TypeError | RequestError int | OtherFailure string

fun statusCode :: "error \<Rightarrow> int option" where
  "statusCode (RequestError c) = Some c"
| "statusCode TypeError = None"
| "statusCode (OtherFailure m) = None"

definition RULE_USER :: string where "RULE_USER = ''m.policy.rule.user''"
definition RULE_ROOM :: string where "RULE_ROOM = ''m.policy.rule.room''"
definition RULE_SERVER :: string where "RULE_SERVER = ''m.policy.rule.server''"

text \<open>The order matters: the most recent type comes first.\<close>

definition USER_RULE_TYPES :: "string list" where
  "USER_RULE_TYPES = [RULE_USER, ''m.room.rule.user'', ''org.matrix.mjolnir.rule.user'']"
definition ROOM_RULE_TYPES :: "string list" where
  "ROOM_RULE_TYPES = [RULE_ROOM, ''m.room.rule.room'', ''org.matrix.mjolnir.rule.room'']"
definition SERVER_RULE_TYPES :: "string list" where
  "SERVER_RULE_TYPES = [RULE_SERVER, ''m.room.rule.server'', ''org.matrix.mjolnir.rule.server'']"
definition ALL_RULE_TYPES :: "string list" where
  "ALL_RULE_TYPES = USER_RULE_TYPES @ ROOM_RULE_TYPES @ SERVER_RULE_TYPES"

definition SHORTCODE_EVENT_TYPE :: string where
  "SHORTCODE_EVENT_TYPE = ''org.matrix.mjolnir.shortcode''"

text \<open>\<open>Array.prototype.indexOf\<close>: the first position of the element, or \<open>-1\<close>.\<close>

fun indexOf :: "'a list \<Rightarrow> 'a \<Rightarrow> int" where
  "indexOf [] x = - 1"
| "indexOf (y # ys) x =
     (if y = x then 0 else (let i = indexOf ys x in if i < 0 then - 1 else i + 1))"

datatype ChangeType = Added | Removed | Modified

text \<open>
  Modelled from the spec: the class \<open>ListRule\<close> is imported from \<open>./ListRule\<close>, which is
  not part of the sources at hand. The spec describes the rule as the value
  \<open>{entity, recommendation, reason, kind}\<close>; the constructor call
  \<open>new ListRule(entity, recommendation, reason, kind)\<close> is modelled as building that value.
  The field values are whatever JSON the content carried.
\<close>

record ListRule =
  entity :: json
  recommendation :: json
  reason :: json
  kind :: string

text \<open>
  A state event of the room. \<open>content\<close> and \<open>unsigned\<close> may be missing from the object;
  \<open>unsigned.redacted_because\<close> is the redaction event, of which the code reads the sender;
  \<open>unsigned.rule\<close> is the slot in which \<open>updateList\<close> caches the parsed rule.
\<close>

record redaction =
  redaction_sender :: string

record unsigned_data =
  redacted_because :: "redaction option"
  rule :: "ListRule option"

record event =
  ev_type :: string
  state_key :: string
  event_id :: string
  sender :: string
  content :: "(string \<times> json) list option"
  unsigned :: "unsigned_data option"

record ListRuleChange =
  changeType :: ChangeType
  change_event :: event
  change_sender :: string
  change_rule :: ListRule
  previousState :: "event option"

section \<open>The state table\<close>

text \<open>
  A JavaScript \<open>Map\<close> keeps insertion order: \<open>set\<close> on a present key replaces the value
  in place, on a new key appends. It is modelled as an association list with distinct
  keys; \<open>map_of\<close> is \<open>get\<close>.
\<close>

fun Map_set :: "'k \<Rightarrow> 'v \<Rightarrow> ('k \<times> 'v) list \<Rightarrow> ('k \<times> 'v) list" where
  "Map_set k v [] = [(k, v)]"
| "Map_set k v (p # ps) = (if fst p = k then (k, v) # ps else p # Map_set k v ps)"

record BanList =
  shortcode :: "json option"
  state :: "(string \<times> (string \<times> event) list) list"

definition getState :: "BanList \<Rightarrow> string \<Rightarrow> string \<Rightarrow> event option" where
  "getState bl stateType stateKey =
     (case map_of (state bl) stateType of
        None \<Rightarrow> None
      | Some typeTable \<Rightarrow> map_of typeTable stateKey)"

definition setState :: "BanList \<Rightarrow> string \<Rightarrow> string \<Rightarrow> event \<Rightarrow> BanList" where
  "setState bl stateType stateKey ev =
     (case map_of (state bl) stateType of
        Some typeTable \<Rightarrow>
          bl\<lparr>state := Map_set stateType (Map_set stateKey ev typeTable) (state bl)\<rparr>
      | None \<Rightarrow> bl\<lparr>state := Map_set stateType [(stateKey, ev)] (state bl)\<rparr>)"

text \<open>\<open>event?.unsigned?.rule\<close>\<close>

definition rule_of :: "event \<Rightarrow> ListRule option" where
  "rule_of ev = (case unsigned ev of None \<Rightarrow> None | Some u \<Rightarrow> rule u)"

text \<open>\<open>event['unsigned']?.['redacted_because']\<close>\<close>

definition redaction_of :: "event \<Rightarrow> redaction option" where
  "redaction_of ev = (case unsigned ev of None \<Rightarrow> None | Some u \<Rightarrow> redacted_because u)"

section \<open>Rule accessors\<close>

text \<open>
  \<open>RECOMMENDATION_BAN\<close> is imported from \<open>./ListRule\<close> and is a parameter here.
  The rules come out in the insertion order of the state keys.
\<close>

definition rulesOfKind :: "string \<Rightarrow> BanList \<Rightarrow> string \<Rightarrow> ListRule list" where
  "rulesOfKind RECOMMENDATION_BAN bl k =
     (case map_of (state bl) k of
        None \<Rightarrow> []
      | Some stateKeyMap \<Rightarrow>
          concat (map (\<lambda>ev. case rule_of ev of
                              None \<Rightarrow> []
                            | Some r \<Rightarrow>
                                if kind r = k \<and> recommendation r = JStr RECOMMENDATION_BAN
                                then [r] else [])
                      (map snd stateKeyMap)))"

definition serverRules :: "string \<Rightarrow> BanList \<Rightarrow> ListRule list" where
  "serverRules RECOMMENDATION_BAN bl = rulesOfKind RECOMMENDATION_BAN bl RULE_SERVER"

definition userRules :: "string \<Rightarrow> BanList \<Rightarrow> ListRule list" where
  "userRules RECOMMENDATION_BAN bl = rulesOfKind RECOMMENDATION_BAN bl RULE_USER"

definition roomRules :: "string \<Rightarrow> BanList \<Rightarrow> ListRule list" where
  "roomRules RECOMMENDATION_BAN bl = rulesOfKind RECOMMENDATION_BAN bl RULE_ROOM"

definition allRules :: "string \<Rightarrow> BanList \<Rightarrow> ListRule list" where
  "allRules RECOMMENDATION_BAN bl =
     serverRules RECOMMENDATION_BAN bl @ userRules RECOMMENDATION_BAN bl
       @ roomRules RECOMMENDATION_BAN bl"

section \<open>updateList\<close>

text \<open>The \<open>kind\<close> chosen by the \<open>if\<close>/\<open>else if\<close> chain on the event type.\<close>

definition kindOf :: "string \<Rightarrow> string option" where
  "kindOf t =
     (if t \<in> set USER_RULE_TYPES then Some RULE_USER
      else if t \<in> set ROOM_RULE_TYPES then Some RULE_ROOM
      else if t \<in> set SERVER_RULE_TYPES then Some RULE_SERVER
      else None)"

text \<open>The three-way test that makes the loop ignore an event of an obsolete type.\<close>

definition obsolete :: "string \<Rightarrow> event \<Rightarrow> event \<Rightarrow> bool" where
  "obsolete k ev previous =
     (if k = RULE_USER
         \<and> indexOf USER_RULE_TYPES (ev_type ev) > indexOf USER_RULE_TYPES (ev_type previous)
      then True
      else if k = RULE_ROOM
         \<and> indexOf ROOM_RULE_TYPES (ev_type ev) > indexOf ROOM_RULE_TYPES (ev_type previous)
      then True
      else if k = RULE_SERVER
         \<and> indexOf SERVER_RULE_TYPES (ev_type ev) > indexOf SERVER_RULE_TYPES (ev_type previous)
      then True
      else False)"

text \<open>
  The immediately invoked function computing \<open>changeType\<close>. \<open>Object.keys\<close> of a missing
  content raises a \<open>TypeError\<close>.
\<close>

definition changeTypeOf :: "event option \<Rightarrow> event \<Rightarrow> error + ChangeType option" where
  "changeTypeOf previous ev =
     (case previous of
        None \<Rightarrow> Inr (Some Added)
      | Some p \<Rightarrow>
          if event_id p = event_id ev then
            (if redaction_of ev \<noteq> None then Inr (Some Removed) else Inr None)
          else
            (case content ev of
               None \<Rightarrow> Inl TypeError
             | Some c \<Rightarrow> if c = [] then Inr (Some Removed) else Inr (Some Modified)))"

text \<open>
  The part of the loop body after \<open>setState\<close>: it yields the change pushed (if any)
  and the event as it is left in the table. Attaching the rule mutates the event object
  that \<open>setState\<close> already stored, so the stored event is the one with the rule.
\<close>

definition parseEvent ::
  "string \<Rightarrow> event option \<Rightarrow> ChangeType option \<Rightarrow> event \<Rightarrow> error + (event \<times> ListRuleChange option)"
where
  "parseEvent k previous ct ev =
     (case (if ct = Some Removed
            then (case previous of None \<Rightarrow> None | Some p \<Rightarrow> rule_of p) else None) of
        Some former \<Rightarrow>
          (case unsigned ev of
             None \<Rightarrow> Inl TypeError
           | Some u \<Rightarrow>
               Inr (ev, Some \<lparr>changeType = Removed, change_event = ev,
                              change_sender = (case redacted_because u of
                                                 Some r \<Rightarrow> redaction_sender r
                                               | None \<Rightarrow> sender ev),
                              change_rule = former,
                              previousState = previous\<rparr>))
      | None \<Rightarrow>
          (case content ev of
             None \<Rightarrow> Inr (ev, None)
           | Some c \<Rightarrow>
               if \<not> truthy_opt (map_of c ''entity'') \<or> \<not> truthy_opt (map_of c ''recommendation'')
               then Inr (ev, None)
               else
                 (let r = \<lparr>entity = the (map_of c ''entity''),
                           recommendation = the (map_of c ''recommendation''),
                           reason = (if truthy_opt (map_of c ''reason'')
                                     then the (map_of c ''reason'') else JStr ''<no reason>''),
                           kind = k\<rparr>
                  in case unsigned ev of
                       None \<Rightarrow> Inl TypeError
                     | Some u \<Rightarrow>
                         (let ev' = ev\<lparr>unsigned := Some (u\<lparr>rule := Some r\<rparr>)\<rparr>
                          in Inr (ev', case ct of
                                         None \<Rightarrow> None
                                       | Some t \<Rightarrow>
                                           Some \<lparr>changeType = t, change_event = ev',
                                                 change_sender = sender ev, change_rule = r,
                                                 previousState = previous\<rparr>)))))"

text \<open>
  One iteration of the loop over the fetched state: the ban list afterwards, and either
  the error that aborts the pass or the change pushed by this iteration.
\<close>

definition processEvent :: "BanList \<Rightarrow> event \<Rightarrow> BanList \<times> (error + ListRuleChange option)" where
  "processEvent bl ev =
     (if state_key ev = [] \<and> ev_type ev = SHORTCODE_EVENT_TYPE then
        (bl\<lparr>shortcode :=
              (case content ev of
                 None \<Rightarrow> None
               | Some c \<Rightarrow> if truthy_opt (map_of c ''shortcode'') then map_of c ''shortcode'' else None)\<rparr>,
         Inr None)
      else if state_key ev = [] \<or> ev_type ev \<notin> set ALL_RULE_TYPES then (bl, Inr None)
      else
        (case kindOf (ev_type ev) of
           None \<Rightarrow> (bl, Inr None)
         | Some k \<Rightarrow>
             (let previous = getState bl k (state_key ev) in
              if (case previous of None \<Rightarrow> False | Some p \<Rightarrow> obsolete k ev p) then (bl, Inr None)
              else
                (let bl1 = setState bl k (state_key ev) ev in
                 case changeTypeOf previous ev of
                   Inl e \<Rightarrow> (bl1, Inl e)
                 | Inr ct \<Rightarrow>
                     (case parseEvent k previous ct ev of
                        Inl e \<Rightarrow> (bl1, Inl e)
                      | Inr (ev', c) \<Rightarrow> (setState bl k (state_key ev) ev', Inr c))))))"

text \<open>
  The loop of \<open>updateList\<close>. An error aborts the pass; what was stored before stays
  stored. The changes returned are the ones emitted with \<open>BanList.update\<close>.
\<close>

fun updateList_loop ::
  "BanList \<Rightarrow> ListRuleChange list \<Rightarrow> event list \<Rightarrow> BanList \<times> (error + ListRuleChange list)"
where
  "updateList_loop bl changes [] = (bl, Inr changes)"
| "updateList_loop bl changes (ev # rest) =
     (case processEvent bl ev of
        (bl', Inl e) \<Rightarrow> (bl', Inl e)
      | (bl', Inr None) \<Rightarrow> updateList_loop bl' changes rest
      | (bl', Inr (Some c)) \<Rightarrow> updateList_loop bl' (changes @ [c]) rest)"

text \<open>\<open>updateList\<close>, given what \<open>getRoomState\<close> answered.\<close>

definition updateList ::
  "BanList \<Rightarrow> error + event list \<Rightarrow> BanList \<times> (error + ListRuleChange list)"
where
  "updateList bl fetched =
     (case fetched of
        Inl e \<Rightarrow> (bl, Inl e)
      | Inr st \<Rightarrow> updateList_loop bl [] st)"

text \<open>
  Whether the content of an event yields a rule: \<open>entity\<close> and \<open>recommendation\<close> are
  both present and truthy.
\<close>

definition hasRule :: "event \<Rightarrow> bool" where
  "hasRule ev =
     (case content ev of
        None \<Rightarrow> False
      | Some c \<Rightarrow> truthy_opt (map_of c ''entity'') \<and> truthy_opt (map_of c ''recommendation''))"

section \<open>unbanEntity\<close>

text \<open>
  The two calls of the Matrix client that \<open>unbanEntity\<close> uses, for the room of the list:
  \<open>getRoomStateEvent\<close> by type and state key, answering the content or rejecting, and
  \<open>sendStateEvent\<close> by type, state key and content, answering the event id or rejecting.
\<close>

record MatrixClient =
  getRoomStateEvent :: "string \<Rightarrow> string \<Rightarrow> error + (string \<times> json) list"
  sendStateEvent :: "string \<Rightarrow> string \<Rightarrow> (string \<times> json) list \<Rightarrow> error + string"

text \<open>
  \<open>Promise.all\<close>: every promise has been started when it is awaited; it rejects if one
  of them rejects. Which rejection wins depends on timing; the model takes the first in
  list order.
\<close>

fun Promise_all :: "(error + 'a) list \<Rightarrow> error + 'a list" where
  "Promise_all [] = Inr []"
| "Promise_all (Inl e # ps) = Inl e"
| "Promise_all (Inr v # ps) = (case Promise_all ps of Inl e \<Rightarrow> Inl e | Inr vs \<Rightarrow> Inr (v # vs))"

text \<open>One point lookup: the state type if found, \<open>null\<close> on a 404, a rejection otherwise.\<close>

definition lookupType :: "MatrixClient \<Rightarrow> string \<Rightarrow> string \<Rightarrow> error + string option" where
  "lookupType client stateKey stateType =
     (case getRoomStateEvent client stateType stateKey of
        Inr c \<Rightarrow> Inr (Some stateType)
      | Inl e \<Rightarrow> if statusCode e = Some 404 then Inr None else Inl e)"

text \<open>\<open>filter(e => e)\<close> drops \<open>null\<close> and every other falsy element, so also the empty string.\<close>

fun truthy_type :: "string option \<Rightarrow> bool" where
  "truthy_type None = False"
| "truthy_type (Some t) = (t \<noteq> [])"

text \<open>
  \<open>unbanEntity\<close> answers its result (or the rejection) together with the writes it
  issued, each as state type, state key and content.
\<close>

definition unbanEntity ::
  "MatrixClient \<Rightarrow> string \<Rightarrow> string
     \<Rightarrow> (error + bool) \<times> (string \<times> string \<times> (string \<times> json) list) list"
where
  "unbanEntity client ruleType ent =
     (let stateKey = ''rule:'' @ ent;
          typesToCheck =
            (if ruleType = RULE_USER then USER_RULE_TYPES
             else if ruleType = RULE_SERVER then SERVER_RULE_TYPES
             else if ruleType = RULE_ROOM then ROOM_RULE_TYPES
             else [ruleType])
      in case Promise_all (map (lookupType client stateKey) typesToCheck) of
           Inl e \<Rightarrow> (Inl e, [])
         | Inr found \<Rightarrow>
             (let typesToRemove = map the (filter truthy_type found) in
              if length typesToRemove = 0 then (Inr False, [])
              else
                (let writes = map (\<lambda>stateType. (stateType, stateKey, [])) typesToRemove in
                 case Promise_all (map (\<lambda>(t, k, c). sendStateEvent client t k c) writes) of
                   Inl e \<Rightarrow> (Inl e, writes)
                 | Inr ids \<Rightarrow> (Inr True, writes))))"

section \<open>UpdateBatcher\<close>

record UpdateBatcher =
  isWaiting :: bool
  latestEventId :: "string option"

definition waitPeriodMS :: int where "waitPeriodMS = 200"
definition maxWaitMS :: int where "maxWaitMS = 3000"

definition reset :: "UpdateBatcher \<Rightarrow> UpdateBatcher" where
  "reset b = b\<lparr>latestEventId := None, isWaiting := False\<rparr>"

text \<open>
  \<open>addToBatch\<close> answers the batcher afterwards and, when it spawned \<open>checkBatch\<close>, the
  event id the new wait loop was started with.
\<close>

definition addToBatch :: "UpdateBatcher \<Rightarrow> string \<Rightarrow> UpdateBatcher \<times> string option" where
  "addToBatch b eventId =
     (if isWaiting b then (b\<lparr>latestEventId := Some eventId\<rparr>, None)
      else (b\<lparr>latestEventId := Some eventId, isWaiting := True\<rparr>, Some eventId))"

text \<open>
  JavaScript runs one task at a time, so other code runs only while \<open>checkBatch\<close> is
  suspended in its \<open>await\<close>. The environment of a wait loop is therefore a list of rounds,
  one for each sleep: the event ids passed to \<open>addToBatch\<close> during the sleep, in order,
  and the value of \<open>Date.now()\<close> read when the loop resumes.
\<close>

type_synonym round = "string list \<times> int"

fun addAll :: "UpdateBatcher \<Rightarrow> string list \<Rightarrow> UpdateBatcher \<times> string list" where
  "addAll b [] = (b, [])"
| "addAll b (m # ms) =
     (case addToBatch b m of
        (b', spawned) \<Rightarrow>
          (case addAll b' ms of
             (b'', others) \<Rightarrow> (b'', (case spawned of None \<Rightarrow> [] | Some e \<Rightarrow> [e]) @ others)))"

text \<open>
  What a finished wait loop leaves behind: the batcher after \<open>reset\<close>, the clock value at
  which it stopped, the number of sleeps, the event ids of wait loops spawned meanwhile,
  and the number of \<open>BanList.batch\<close> emissions.
\<close>

record batch_run =
  batcher_after :: UpdateBatcher
  finished_at :: int
  sleeps :: nat
  spawned_meanwhile :: "string list"
  batches_emitted :: nat

text \<open>
  The \<open>do\<close>/\<open>while\<close> loop of \<open>checkBatch\<close>. \<open>None\<close> says that the loop is still waiting
  when the rounds given are used up.
\<close>

fun checkBatch_loop ::
  "string \<Rightarrow> int \<Rightarrow> UpdateBatcher \<Rightarrow> nat \<Rightarrow> string list \<Rightarrow> round list \<Rightarrow> batch_run option"
where
  "checkBatch_loop eventId start b n sp [] = None"
| "checkBatch_loop eventId start b n sp ((arrivals, now) # rounds) =
     (case addAll b arrivals of
        (b', sp') \<Rightarrow>
          if now - start < maxWaitMS \<and> latestEventId b' \<noteq> Some eventId
          then checkBatch_loop eventId start b' (Suc n) (sp @ sp') rounds
          else Some \<lparr>batcher_after = reset b', finished_at = now, sleeps = Suc n,
                      spawned_meanwhile = sp @ sp', batches_emitted = 1\<rparr>)"

text \<open>\<open>checkBatch\<close>, called when the clock shows \<open>start\<close>.\<close>

definition checkBatch :: "string \<Rightarrow> int \<Rightarrow> UpdateBatcher \<Rightarrow> round list \<Rightarrow> batch_run option" where
  "checkBatch eventId start b rounds = checkBatch_loop eventId start b 0 [] rounds"

section \<open>Auxiliary notions for the statements\<close>

text \<open>The alias table of a kind, most recent type first.\<close>

definition aliasTable :: "string \<Rightarrow> string list" where
  "aliasTable k =
     (if k = RULE_USER then USER_RULE_TYPES
      else if k = RULE_ROOM then ROOM_RULE_TYPES
      else if k = RULE_SERVER then SERVER_RULE_TYPES
      else [])"

text \<open>
  What a point lookup of \<open>unbanEntity\<close> finds for a state type: a record, nothing (a
  rejection with status code 404), or a failure; and whether the clearing write for a
  state type is rejected.
\<close>

definition lookupFound :: "MatrixClient \<Rightarrow> string \<Rightarrow> string \<Rightarrow> bool" where
  "lookupFound client stateKey stateType =
     (case getRoomStateEvent client stateType stateKey of Inr c \<Rightarrow> True | Inl e \<Rightarrow> False)"

definition lookupNotFound :: "MatrixClient \<Rightarrow> string \<Rightarrow> string \<Rightarrow> bool" where
  "lookupNotFound client stateKey stateType =
     (case getRoomStateEvent client stateType stateKey of
        Inr c \<Rightarrow> False
      | Inl e \<Rightarrow> statusCode e = Some 404)"

definition lookupFails :: "MatrixClient \<Rightarrow> string \<Rightarrow> string \<Rightarrow> bool" where
  "lookupFails client stateKey stateType =
     (case getRoomStateEvent client stateType stateKey of
        Inr c \<Rightarrow> False
      | Inl e \<Rightarrow> statusCode e \<noteq> Some 404)"

definition writeFails :: "MatrixClient \<Rightarrow> string \<Rightarrow> string \<Rightarrow> bool" where
  "writeFails client stateKey stateType =
     (case sendStateEvent client stateType stateKey [] of Inr i \<Rightarrow> False | Inl e \<Rightarrow> True)"

text \<open>
  Timers: \<open>setTimeout\<close> does not fire before its delay has passed, so each round resumes
  at least \<open>waitPeriodMS\<close> after the previous one (the first after the start of the loop).
  The timers are punctual when each fires exactly at its delay.
\<close>

fun timers_fire :: "int \<Rightarrow> round list \<Rightarrow> bool" where
  "timers_fire prev [] = True"
| "timers_fire prev ((arrivals, now) # rounds) =
     (prev + waitPeriodMS \<le> now \<and> timers_fire now rounds)"

fun timers_punctual :: "int \<Rightarrow> round list \<Rightarrow> bool" where
  "timers_punctual prev [] = True"
| "timers_punctual prev ((arrivals, now) # rounds) =
     (now = prev + waitPeriodMS \<and> timers_punctual now rounds)"

text \<open>
  The rule part of a loop iteration as a function of the stored record alone: \<open>None\<close>
  when the event is ignored as obsolete, otherwise the event as it ends up in the table
  and the outcome of the iteration.
\<close>

definition ruleStep ::
  "string \<Rightarrow> event option \<Rightarrow> event \<Rightarrow> (event \<times> (error + ListRuleChange option)) option"
where
  "ruleStep k previous ev =
     (if (case previous of None \<Rightarrow> False | Some p \<Rightarrow> obsolete k ev p) then None
      else Some (case changeTypeOf previous ev of
                   Inl e \<Rightarrow> (ev, Inl e)
                 | Inr ct \<Rightarrow>
                     (case parseEvent k previous ct ev of
                        Inl e \<Rightarrow> (ev, Inl e)
                      | Inr (ev', c) \<Rightarrow> (ev', Inr c))))"

text \<open>
  An event is settled in a ban list when processing it changes nothing: the shortcode
  event when the list has its shortcode, a rule event when the stored record for its kind
  and state key outranks it or is its own stored form.
\<close>

definition settled :: "BanList \<Rightarrow> event \<Rightarrow> bool" where
  "settled bl ev =
     (if state_key ev = [] \<and> ev_type ev = SHORTCODE_EVENT_TYPE
      then processEvent bl ev = (bl, Inr None)
      else if state_key ev = [] \<or> ev_type ev \<notin> set ALL_RULE_TYPES then True
      else
        (case kindOf (ev_type ev) of
           None \<Rightarrow> True
         | Some k \<Rightarrow>
             (case getState bl k (state_key ev) of
                None \<Rightarrow> False
              | Some p \<Rightarrow> obsolete k ev p \<or> ruleStep k (Some p) ev = Some (p, Inr None))))"

text \<open>
  Events as the homeserver returns them. A redaction strips the content of a policy rule
  event, so a redacted event no longer has both entity and recommendation (\<open>stripped\<close>
  asks for no more than that). The room state holds one event for each pair of type and
  state key, and its events have no \<open>rule\<close> in their \<open>unsigned\<close> part: that slot is written
  by \<open>updateList\<close> only. An event is well formed when its content and its \<open>unsigned\<close>
  part are present.
\<close>

definition stripped :: "event \<Rightarrow> bool" where
  "stripped ev = (redaction_of ev = None \<or> \<not> hasRule ev)"

definition fromStore :: "event list \<Rightarrow> bool" where
  "fromStore evs =
     (distinct (map (\<lambda>e. (ev_type e, state_key e)) evs)
      \<and> list_all (\<lambda>e. rule_of e = None) evs
      \<and> list_all stripped evs)"

definition wellFormed :: "event \<Rightarrow> bool" where
  "wellFormed ev = (content ev \<noteq> None \<and> unsigned ev \<noteq> None)"

subsection \<open>Sample data\<close>

definition ex_empty :: BanList where
  "ex_empty = \<lparr>shortcode = None, state = []\<rparr>"

definition ex_rule :: ListRule where
  "ex_rule = \<lparr>entity = JStr ''@a:example.org'', recommendation = JStr ''m.ban'',
              reason = JStr ''spam'', kind = ''m.policy.rule.user''\<rparr>"

definition ex_ban :: event where
  "ex_ban = \<lparr>ev_type = ''m.policy.rule.user'', state_key = ''rule:@a:example.org'',
             event_id = ''$1'', sender = ''@mod:example.org'',
             content = Some [(''entity'', JStr ''@a:example.org''),
                             (''recommendation'', JStr ''m.ban''),
                             (''reason'', JStr ''spam'')],
             unsigned = Some \<lparr>redacted_because = None, rule = None\<rparr>\<rparr>"

definition ex_ban_stored :: event where
  "ex_ban_stored = ex_ban\<lparr>unsigned := Some \<lparr>redacted_because = None, rule = Some ex_rule\<rparr>\<rparr>"

definition ex_list1 :: BanList where
  "ex_list1 = fst (updateList ex_empty (Inr [ex_ban]))"


text \<open>An empty-content event of the current type on the same state key.\<close>

definition ex_clear :: event where
  "ex_clear = \<lparr>ev_type = ''m.policy.rule.user'', state_key = ''rule:@a:example.org'',
             event_id = ''$3'', sender = ''@other:example.org'',
             content = Some [],
             unsigned = Some \<lparr>redacted_because = None, rule = None\<rparr>\<rparr>"


text \<open>A ban of the same user sent under the older type \<open>m.room.rule.user\<close>.\<close>

definition ex_legacy_ban :: event where
  "ex_legacy_ban = \<lparr>ev_type = ''m.room.rule.user'', state_key = ''rule:@a:example.org'',
             event_id = ''$4'', sender = ''@other:example.org'',
             content = Some [(''entity'', JStr ''@a:example.org''),
                             (''recommendation'', JStr ''m.ban'')],
             unsigned = Some \<lparr>redacted_because = None, rule = None\<rparr>\<rparr>"

text \<open>A second empty-content event of the current type on the same state key.\<close>

definition ex_clear_again :: event where
  "ex_clear_again = ex_clear\<lparr>event_id := ''$5''\<rparr>"

definition ex_list_cleared :: BanList where
  "ex_list_cleared = fst (updateList ex_empty (Inr [ex_clear]))"

definition ex_removed :: ListRuleChange where
  "ex_removed = \<lparr>changeType = Removed, change_event = ex_clear,
                 change_sender = ''@other:example.org'', change_rule = ex_rule,
                 previousState = Some ex_ban_stored\<rparr>"

text \<open>A warning about a room: a valid rule whose recommendation is not the ban.\<close>

definition ex_warn_rule :: ListRule where
  "ex_warn_rule = \<lparr>entity = JStr ''#b:example.org'', recommendation = JStr ''org.example.warn'',
                   reason = JStr ''<no reason>'', kind = ''m.policy.rule.room''\<rparr>"

definition ex_warn :: event where
  "ex_warn = \<lparr>ev_type = ''m.policy.rule.room'', state_key = ''rule:#b:example.org'',
              event_id = ''$6'', sender = ''@mod:example.org'',
              content = Some [(''entity'', JStr ''#b:example.org''),
                              (''recommendation'', JStr ''org.example.warn'')],
              unsigned = Some \<lparr>redacted_because = None, rule = None\<rparr>\<rparr>"

definition ex_list_mixed :: BanList where
  "ex_list_mixed = fst (updateList ex_empty (Inr [ex_ban, ex_warn]))"

text \<open>
  A room in which the user is banned under the current and under the oldest user rule
  type, and a room that answers every lookup with a record. All writes are accepted.
\<close>

definition ex_client :: MatrixClient where
  "ex_client = \<lparr>getRoomStateEvent =
                   (\<lambda>stateType stateKey.
                      if stateKey = ''rule:@a:example.org''
                         \<and> (stateType = ''m.policy.rule.user''
                            \<or> stateType = ''org.matrix.mjolnir.rule.user'')
                      then Inr [(''entity'', JStr ''@a:example.org''),
                                (''recommendation'', JStr ''m.ban'')]
                      else Inl (RequestError 404)),
                 sendStateEvent = (\<lambda>stateType stateKey c. Inr ''$sent'')\<rparr>"

definition ex_client_any :: MatrixClient where
  "ex_client_any = \<lparr>getRoomStateEvent = (\<lambda>stateType stateKey. Inr []),
                     sendStateEvent = (\<lambda>stateType stateKey c. Inr ''$sent'')\<rparr>"

text \<open>
  The batcher after \<open>addToBatch\<close> of \<open>m1\<close>; then \<open>m2\<close> arrives during the first sleep and
  nothing afterwards, the loop resuming every 200 ms.
\<close>

definition ex_idle :: UpdateBatcher where
  "ex_idle = \<lparr>isWaiting = False, latestEventId = None\<rparr>"

definition ex_waiting :: UpdateBatcher where
  "ex_waiting = \<lparr>isWaiting = True, latestEventId = Some ''m1''\<rparr>"

definition ex_silence :: "round list" where
  "ex_silence = ([''m2''], 200) # map (\<lambda>i. ([], 200 * int i)) [2..<16]"


definition ex_warn_stored :: event where
  "ex_warn_stored = ex_warn\<lparr>unsigned := Some \<lparr>redacted_because = None, rule = Some ex_warn_rule\<rparr>\<rparr>"

text \<open>
  The room of \<open>ex_client\<close> with a homeserver that fails on the lookup of
  \<open>m.room.rule.user\<close>, and with one that refuses every write.
\<close>

definition ex_client_down :: MatrixClient where
  "ex_client_down = ex_client\<lparr>getRoomStateEvent :=
      (\<lambda>stateType stateKey.
         if stateType = ''m.room.rule.user'' then Inl (RequestError 500)
         else getRoomStateEvent ex_client stateType stateKey)\<rparr>"

definition ex_client_readonly :: MatrixClient where
  "ex_client_readonly = ex_client\<lparr>sendStateEvent :=
      (\<lambda>stateType stateKey c. Inl (RequestError 403))\<rparr>"

text \<open>
  A room state: the shortcode, the ban of \<open>@a\<close> under an old and under the current type,
  the warning about a room, and a server rule that was redacted.
\<close>

definition ex_shortcode :: event where
  "ex_shortcode = \<lparr>ev_type = ''org.matrix.mjolnir.shortcode'', state_key = [],
             event_id = ''$7'', sender = ''@mod:example.org'',
             content = Some [(''shortcode'', JStr ''spam'')],
             unsigned = Some \<lparr>redacted_because = None, rule = None\<rparr>\<rparr>"

definition ex_gone :: event where
  "ex_gone = \<lparr>ev_type = ''m.policy.rule.server'', state_key = ''rule:evil.example.org'',
             event_id = ''$8'', sender = ''@mod:example.org'',
             content = Some [],
             unsigned = Some \<lparr>redacted_because = Some \<lparr>redaction_sender = ''@admin:example.org''\<rparr>,
                               rule = None\<rparr>\<rparr>"

definition ex_state :: "event list" where
  "ex_state = [ex_shortcode, ex_legacy_ban, ex_ban, ex_warn, ex_gone]"

definition ex_synced :: BanList where
  "ex_synced = fst (updateList ex_empty (Inr ex_state))"

text \<open>
  An event on the same state key that has a reason but neither entity nor
  recommendation.
\<close>

definition ex_note :: event where
  "ex_note = \<lparr>ev_type = ''m.policy.rule.user'', state_key = ''rule:@a:example.org'',
             event_id = ''$9'', sender = ''@other:example.org'',
             content = Some [(''reason'', JStr ''no longer needed'')],
             unsigned = Some \<lparr>redacted_because = None, rule = None\<rparr>\<rparr>"


section \<open>Basic facts\<close>

lemmas table_defs = RULE_USER_def RULE_ROOM_def RULE_SERVER_def USER_RULE_TYPES_def
  ROOM_RULE_TYPES_def SERVER_RULE_TYPES_def

lemma indexOf_ge: "- 1 \<le> indexOf xs x"
  by (induction xs) (auto simp: Let_def)

lemma indexOf_mem: "x \<in> set xs \<Longrightarrow> 0 \<le> indexOf xs x"
  by (induction xs) (auto simp: Let_def)

lemma indexOf_inj: "x \<in> set xs \<Longrightarrow> indexOf xs x = indexOf xs y \<Longrightarrow> x = y"
proof (induction xs)
  case Nil
  then show ?case by simp
next
  case (Cons a xs)
  show ?case
  proof (cases "a = x")
    case True
    with Cons.prems show ?thesis
      using indexOf_ge [of xs y] by (auto simp: Let_def split: if_splits)
  next
    case False
    with Cons.prems have "x \<in> set xs" by simp
    with Cons.prems False Cons.IH show ?thesis
      using indexOf_mem [of x xs] by (auto simp: Let_def split: if_splits)
  qed
qed

lemma kindOf_alias: "kindOf t = Some k \<Longrightarrow> t \<in> set (aliasTable k)"
  by (auto simp: kindOf_def aliasTable_def table_defs split: if_splits)

lemma kindOf_cases: "kindOf t = Some k \<Longrightarrow> k = RULE_USER \<or> k = RULE_ROOM \<or> k = RULE_SERVER"
  by (auto simp: kindOf_def split: if_splits)

lemma kindOf_all: "kindOf t = Some k \<Longrightarrow> t \<in> set ALL_RULE_TYPES"
  by (auto simp: kindOf_def ALL_RULE_TYPES_def split: if_splits)

lemma kindOf_not_shortcode: "kindOf t = Some k \<Longrightarrow> t \<noteq> SHORTCODE_EVENT_TYPE"
  by (auto simp: kindOf_def SHORTCODE_EVENT_TYPE_def table_defs split: if_splits)

lemma obsolete_alias:
  "k = RULE_USER \<or> k = RULE_ROOM \<or> k = RULE_SERVER \<Longrightarrow>
   obsolete k ev p \<longleftrightarrow> indexOf (aliasTable k) (ev_type p) < indexOf (aliasTable k) (ev_type ev)"
  by (auto simp: obsolete_def aliasTable_def RULE_USER_def RULE_ROOM_def RULE_SERVER_def)

lemma processEvent_rule:
  assumes "kindOf (ev_type ev) = Some k" and "state_key ev \<noteq> []"
  shows "processEvent bl ev =
     (let previous = getState bl k (state_key ev) in
      if (case previous of None \<Rightarrow> False | Some p \<Rightarrow> obsolete k ev p) then (bl, Inr None)
      else
        (case changeTypeOf previous ev of
           Inl e \<Rightarrow> (setState bl k (state_key ev) ev, Inl e)
         | Inr ct \<Rightarrow>
             (case parseEvent k previous ct ev of
                Inl e \<Rightarrow> (setState bl k (state_key ev) ev, Inl e)
              | Inr (ev', c) \<Rightarrow> (setState bl k (state_key ev) ev', Inr c))))"
  using assms kindOf_all [OF assms(1)]
  by (simp add: processEvent_def Let_def)

lemma processEvent_skip_empty_key:
  assumes "kindOf (ev_type ev) = Some k" and "state_key ev = []"
  shows "processEvent bl ev = (bl, Inr None)"
  using assms kindOf_not_shortcode [OF assms(1)]
  by (simp add: processEvent_def)

section \<open>Reconciliation\<close>

text \<open>
  C1. During a pass, when a record is already stored for the kind and state key of the
  incoming event and the type of the incoming event has a larger index in the alias table
  of that kind than the type of the stored record, the iteration changes nothing: the
  ban list is left as it was and no change is pushed, so the loop goes on as if the event
  had not been in the list.
\<close>

theorem lower_authority_discarded:
  assumes "kindOf (ev_type ev) = Some k"
    and "getState bl k (state_key ev) = Some p"
    and "indexOf (aliasTable k) (ev_type p) < indexOf (aliasTable k) (ev_type ev)"
  shows "processEvent bl ev = (bl, Inr None)
       \<and> updateList_loop bl changes (ev # rest) = updateList_loop bl changes rest"
proof -
  have obs: "obsolete k ev p"
    using assms(3) obsolete_alias [OF kindOf_cases [OF assms(1)]] by simp
  have "processEvent bl ev = (bl, Inr None)"
  proof (cases "state_key ev = []")
    case True
    then show ?thesis using processEvent_skip_empty_key [OF assms(1)] by simp
  next
    case False
    then show ?thesis
      using processEvent_rule [OF assms(1) False] assms(2) obs by simp
  qed
  then show ?thesis by simp
qed


theorem lower_authority_discarded_witness:
  "kindOf (ev_type ex_legacy_ban) = Some RULE_USER
 \<and> getState ex_list1 RULE_USER (state_key ex_legacy_ban) = Some ex_ban_stored
 \<and> indexOf (aliasTable RULE_USER) (ev_type ex_ban_stored)
     < indexOf (aliasTable RULE_USER) (ev_type ex_legacy_ban)
 \<and> processEvent ex_list1 ex_legacy_ban = (ex_list1, Inr None)
 \<and> updateList_loop ex_list1 [] [ex_legacy_ban] = (ex_list1, Inr [])"
proof -
  have h1: "kindOf (ev_type ex_legacy_ban) = Some RULE_USER"
    by code_simp
  have h2: "getState ex_list1 RULE_USER (state_key ex_legacy_ban) = Some ex_ban_stored"
    by code_simp
  have h3: "indexOf (aliasTable RULE_USER) (ev_type ex_ban_stored)
     < indexOf (aliasTable RULE_USER) (ev_type ex_legacy_ban)"
    by code_simp
  from lower_authority_discarded [OF h1 h2 h3, of "[]" "[]"] h1 h2 h3
  show ?thesis by simp
qed






lemma parseEvent_pushed:
  assumes "parseEvent k previous ct ev = Inr (ev', Some c)"
  shows "ct = Some (changeType c)
       \<and> ((\<exists>p former. previous = Some p \<and> rule_of p = Some former \<and> changeType c = Removed
               \<and> change_rule c = former \<and> previousState c = Some p)
           \<or> hasRule ev)"
  using assms
  by (auto simp: parseEvent_def hasRule_def Let_def
           split: option.splits if_splits)

lemma parseEvent_quiet:
  assumes "previous = None \<or> (\<exists>p. previous = Some p \<and> rule_of p = None) \<or> ct \<noteq> Some Removed"
    and "\<not> hasRule ev"
  shows "parseEvent k previous ct ev = Inr (ev, None)"
  using assms
  by (auto simp: parseEvent_def hasRule_def split: option.splits)

lemma changeTypeOf_Removed_no_rule:
  assumes "changeTypeOf previous ev = Inr (Some Removed)"
    and "redaction_of ev \<noteq> None \<longrightarrow> \<not> hasRule ev"
  shows "\<not> hasRule ev"
  using assms
  by (auto simp: changeTypeOf_def hasRule_def split: option.splits if_splits)

lemma changeTypeOf_error:
  "changeTypeOf previous ev = Inl e \<Longrightarrow> e = TypeError \<and> content ev = None"
  by (auto simp: changeTypeOf_def split: option.splits if_splits)

lemma processEvent_no_kind:
  "kindOf (ev_type ev) = None \<Longrightarrow> snd (processEvent bl ev) = Inr None"
  by (auto simp: processEvent_def)

text \<open>
  C2. For an event as the homeserver returns it: a \<open>Removed\<close> change is pushed only when
  the event is classified as \<open>Removed\<close> against a stored record that carries a parsed rule,
  and the change then carries that rule and that record; when the event is classified as
  \<open>Removed\<close> and the stored record carries no rule, nothing is pushed; and when the
  stored record carries no rule and the event has no entity or no recommendation, nothing
  is pushed however the event is classified (the iteration ends without a change, or with
  a \<open>TypeError\<close> when the event has no content at all).
\<close>

theorem removed_needs_rule:
  assumes "stripped ev"
  shows
   "(processEvent bl ev = (bl', Inr (Some c)) \<and> changeType c = Removed \<longrightarrow>
      (\<exists>k p former. kindOf (ev_type ev) = Some k \<and> getState bl k (state_key ev) = Some p
             \<and> changeTypeOf (Some p) ev = Inr (Some Removed)
             \<and> rule_of p = Some former \<and> change_rule c = former \<and> previousState c = Some p))
 \<and> (kindOf (ev_type ev) = Some k \<and> getState bl k (state_key ev) = Some p
      \<and> changeTypeOf (Some p) ev = Inr (Some Removed) \<and> rule_of p = None \<longrightarrow>
      snd (processEvent bl ev) = Inr None)
 \<and> (kindOf (ev_type ev) = Some k \<and> getState bl k (state_key ev) = Some p
      \<and> rule_of p = None \<and> \<not> hasRule ev \<longrightarrow>
      snd (processEvent bl ev) = Inr None
      \<or> (content ev = None \<and> snd (processEvent bl ev) = Inl TypeError))"
proof (intro conjI impI)
  from assms have red: "redaction_of ev \<noteq> None \<longrightarrow> \<not> hasRule ev"
    by (auto simp: stripped_def)
  {
    assume a: "processEvent bl ev = (bl', Inr (Some c)) \<and> changeType c = Removed"
    show "\<exists>k p former. kindOf (ev_type ev) = Some k \<and> getState bl k (state_key ev) = Some p
             \<and> changeTypeOf (Some p) ev = Inr (Some Removed)
             \<and> rule_of p = Some former \<and> change_rule c = former \<and> previousState c = Some p"
    proof (cases "kindOf (ev_type ev)")
      case None
      with a show ?thesis using processEvent_no_kind [of ev bl] by simp
    next
      case (Some k0)
      show ?thesis
      proof (cases "state_key ev = []")
        case True
        with a Some show ?thesis using processEvent_skip_empty_key [OF Some True, of bl] by simp
      next
        case False
        from a obtain ct ev' where
          ct: "changeTypeOf (getState bl k0 (state_key ev)) ev = Inr ct"
          and pe: "parseEvent k0 (getState bl k0 (state_key ev)) ct ev = Inr (ev', Some c)"
          using processEvent_rule [OF Some False, of bl]
          by (auto simp: Let_def split: if_splits sum.splits prod.splits)
        from parseEvent_pushed [OF pe] a have ct': "ct = Some Removed" by auto
        with ct have "\<not> hasRule ev" using changeTypeOf_Removed_no_rule [OF _ red] by blast
        with parseEvent_pushed [OF pe] obtain p0 former where
          "getState bl k0 (state_key ev) = Some p0" "rule_of p0 = Some former"
          "change_rule c = former" "previousState c = Some p0"
          by auto
        with Some ct ct' show ?thesis by auto
      qed
    qed
  }
  {
    assume b: "kindOf (ev_type ev) = Some k \<and> getState bl k (state_key ev) = Some p
        \<and> changeTypeOf (Some p) ev = Inr (Some Removed) \<and> rule_of p = None"
    then have k: "kindOf (ev_type ev) = Some k" by simp
    from b have nr: "\<not> hasRule ev" using changeTypeOf_Removed_no_rule [OF _ red] by blast
    show "snd (processEvent bl ev) = Inr None"
    proof (cases "state_key ev = []")
      case True
      then show ?thesis using processEvent_skip_empty_key [OF k True, of bl] by simp
    next
      case False
      have "parseEvent k (Some p) (Some Removed) ev = Inr (ev, None)"
        using b nr by (intro parseEvent_quiet) auto
      with b show ?thesis
        using processEvent_rule [OF k False, of bl] by (simp add: Let_def)
    qed
  }
  {
    assume c: "kindOf (ev_type ev) = Some k \<and> getState bl k (state_key ev) = Some p
        \<and> rule_of p = None \<and> \<not> hasRule ev"
    then have k: "kindOf (ev_type ev) = Some k" by simp
    show "snd (processEvent bl ev) = Inr None
        \<or> (content ev = None \<and> snd (processEvent bl ev) = Inl TypeError)"
    proof (cases "state_key ev = []")
      case True
      then show ?thesis using processEvent_skip_empty_key [OF k True, of bl] by simp
    next
      case False
      have quiet: "parseEvent k (Some p) ct ev = Inr (ev, None)" for ct
        using c by (intro parseEvent_quiet) auto
      show ?thesis
      proof (cases "changeTypeOf (Some p) ev")
        case (Inl e)
        with changeTypeOf_error [OF Inl] c show ?thesis
          using processEvent_rule [OF k False, of bl] by (simp add: Let_def)
      next
        case (Inr ct)
        with quiet [of ct] c show ?thesis
          using processEvent_rule [OF k False, of bl] by (simp add: Let_def)
      qed
    qed
  }
qed

theorem removed_needs_rule_witness:
  "stripped ex_clear \<and> stripped ex_clear_again \<and> stripped ex_note
 \<and> processEvent ex_list1 ex_clear
      = (setState ex_list1 RULE_USER (state_key ex_clear) ex_clear, Inr (Some ex_removed))
 \<and> changeType ex_removed = Removed
 \<and> (\<exists>k p former. kindOf (ev_type ex_clear) = Some k
        \<and> getState ex_list1 k (state_key ex_clear) = Some p
        \<and> changeTypeOf (Some p) ex_clear = Inr (Some Removed)
        \<and> rule_of p = Some former \<and> change_rule ex_removed = former
        \<and> previousState ex_removed = Some p)
 \<and> kindOf (ev_type ex_clear_again) = Some RULE_USER
 \<and> getState ex_list_cleared RULE_USER (state_key ex_clear_again) = Some ex_clear
 \<and> changeTypeOf (Some ex_clear) ex_clear_again = Inr (Some Removed)
 \<and> rule_of ex_clear = None
 \<and> snd (processEvent ex_list_cleared ex_clear_again) = Inr None
 \<and> kindOf (ev_type ex_note) = Some RULE_USER
 \<and> getState ex_list_cleared RULE_USER (state_key ex_note) = Some ex_clear
 \<and> changeTypeOf (Some ex_clear) ex_note = Inr (Some Modified)
 \<and> \<not> hasRule ex_note
 \<and> snd (processEvent ex_list_cleared ex_note) = Inr None"
proof -
  have s1: "stripped ex_clear" by code_simp
  have s2: "stripped ex_clear_again" by code_simp
  have s3: "stripped ex_note" by code_simp
  have a1: "processEvent ex_list1 ex_clear
      = (setState ex_list1 RULE_USER (state_key ex_clear) ex_clear, Inr (Some ex_removed))"
    by code_simp
  have a2: "changeType ex_removed = Removed" by code_simp
  have b1: "kindOf (ev_type ex_clear_again) = Some RULE_USER" by code_simp
  have b2: "getState ex_list_cleared RULE_USER (state_key ex_clear_again) = Some ex_clear"
    by code_simp
  have b3: "changeTypeOf (Some ex_clear) ex_clear_again = Inr (Some Removed)" by code_simp
  have b4: "rule_of ex_clear = None" by code_simp
  have c1: "kindOf (ev_type ex_note) = Some RULE_USER" by code_simp
  have c2: "getState ex_list_cleared RULE_USER (state_key ex_note) = Some ex_clear"
    by code_simp
  have c3: "changeTypeOf (Some ex_clear) ex_note = Inr (Some Modified)" by code_simp
  have c4: "\<not> hasRule ex_note" by code_simp
  have c5: "content ex_note \<noteq> None" by code_simp
  from removed_needs_rule [OF s1, of ex_list1
      "setState ex_list1 RULE_USER (state_key ex_clear) ex_clear" ex_removed] a1 a2
  have a3: "\<exists>k p former. kindOf (ev_type ex_clear) = Some k
        \<and> getState ex_list1 k (state_key ex_clear) = Some p
        \<and> changeTypeOf (Some p) ex_clear = Inr (Some Removed)
        \<and> rule_of p = Some former \<and> change_rule ex_removed = former
        \<and> previousState ex_removed = Some p"
    by blast
  from removed_needs_rule [OF s2, of ex_list_cleared _ _ RULE_USER ex_clear] b1 b2 b3 b4
  have b5: "snd (processEvent ex_list_cleared ex_clear_again) = Inr None"
    by blast
  from removed_needs_rule [OF s3, of ex_list_cleared _ _ RULE_USER ex_clear] c1 c2 b4 c4 c5
  have c6: "snd (processEvent ex_list_cleared ex_note) = Inr None"
    by simp
  from s1 s2 s3 a1 a2 a3 b1 b2 b3 b4 b5 c1 c2 c3 c4 c6 show ?thesis by blast
qed


section \<open>Rule accessors return bans only\<close>

lemma rulesOfKind_ban:
  "r \<in> set (rulesOfKind ban bl k) \<Longrightarrow> recommendation r = JStr ban \<and> kind r = k"
  by (auto simp: rulesOfKind_def split: option.splits if_splits)

text \<open>
  C8. Whatever the state table holds, every rule returned by \<open>rulesOfKind\<close> for a kind,
  and so by \<open>serverRules\<close>, \<open>userRules\<close>, \<open>roomRules\<close> and \<open>allRules\<close>, has the ban
  recommendation; a rule with another recommendation is returned by none of them.
\<close>

theorem accessors_ban_only:
  "(\<forall>r \<in> set (rulesOfKind ban bl k). recommendation r = JStr ban)
 \<and> (\<forall>r \<in> set (serverRules ban bl) \<union> set (userRules ban bl) \<union> set (roomRules ban bl)
        \<union> set (allRules ban bl). recommendation r = JStr ban)
 \<and> (\<forall>r. recommendation r \<noteq> JStr ban \<longrightarrow>
        r \<notin> set (rulesOfKind ban bl k) \<and> r \<notin> set (allRules ban bl))"
  using rulesOfKind_ban
  by (auto simp: allRules_def serverRules_def userRules_def roomRules_def)

theorem accessors_ban_only_witness:
  "ex_rule \<in> set (rulesOfKind ''m.ban'' ex_list_mixed RULE_USER)
 \<and> ex_rule \<in> set (allRules ''m.ban'' ex_list_mixed)
 \<and> recommendation ex_rule = JStr ''m.ban''
 \<and> getState ex_list_mixed RULE_ROOM (state_key ex_warn) = Some ex_warn_stored
 \<and> rule_of ex_warn_stored = Some ex_warn_rule
 \<and> recommendation ex_warn_rule \<noteq> JStr ''m.ban''
 \<and> ex_warn_rule \<notin> set (rulesOfKind ''m.ban'' ex_list_mixed RULE_ROOM)
 \<and> ex_warn_rule \<notin> set (allRules ''m.ban'' ex_list_mixed)"
proof -
  have h1: "ex_rule \<in> set (rulesOfKind ''m.ban'' ex_list_mixed RULE_USER)" by code_simp
  have h2: "ex_rule \<in> set (allRules ''m.ban'' ex_list_mixed)" by code_simp
  have h3: "getState ex_list_mixed RULE_ROOM (state_key ex_warn) = Some ex_warn_stored"
    by code_simp
  have h4: "rule_of ex_warn_stored = Some ex_warn_rule" by code_simp
  have h5: "recommendation ex_warn_rule \<noteq> JStr ''m.ban''" by code_simp
  from accessors_ban_only [of "''m.ban''" ex_list_mixed RULE_USER] h1
  have c1: "recommendation ex_rule = JStr ''m.ban''" by blast
  from accessors_ban_only [of "''m.ban''" ex_list_mixed RULE_ROOM] h5
  have c2: "ex_warn_rule \<notin> set (rulesOfKind ''m.ban'' ex_list_mixed RULE_ROOM)
          \<and> ex_warn_rule \<notin> set (allRules ''m.ban'' ex_list_mixed)" by blast
  from h1 h2 h3 h4 h5 c1 c2 show ?thesis by blast
qed

section \<open>unbanEntity\<close>

lemma Promise_all_Inr: "(\<forall>p \<in> set ps. \<exists>v. p = Inr v) \<Longrightarrow> Promise_all ps = Inr (map projr ps)"
  by (induction ps rule: Promise_all.induct) auto

lemma Promise_all_Inl: "\<exists>e. Inl e \<in> set ps \<Longrightarrow> \<exists>e. Promise_all ps = Inl e \<and> Inl e \<in> set ps"
  by (induction ps rule: Promise_all.induct) (auto split: sum.splits)

lemma lookups_fail:
  assumes "\<exists>t \<in> set ts. lookupFails client key t"
  shows "\<exists>t \<in> set ts. \<exists>e. getRoomStateEvent client t key = Inl e \<and> statusCode e \<noteq> Some 404
           \<and> Promise_all (map (lookupType client key) ts) = Inl e"
proof -
  from assms obtain t where t: "t \<in> set ts" and f: "lookupFails client key t" by blast
  from f obtain e where "lookupType client key t = Inl e"
    by (auto simp: lookupFails_def lookupType_def split: sum.splits)
  with t have "\<exists>e. Inl e \<in> set (map (lookupType client key) ts)"
    by (metis image_eqI set_map)
  from Promise_all_Inl [OF this] obtain e' where all: "Promise_all (map (lookupType client key) ts) = Inl e'"
    and mem: "Inl e' \<in> set (map (lookupType client key) ts)" by blast
  from mem obtain t' where t': "t' \<in> set ts" and l: "lookupType client key t' = Inl e'" by auto
  from l have "getRoomStateEvent client t' key = Inl e' \<and> statusCode e' \<noteq> Some 404"
    by (auto simp: lookupType_def split: sum.splits if_splits)
  with t' all show ?thesis by blast
qed

lemma lookups_ok:
  assumes "\<forall>t \<in> set ts. \<not> lookupFails client key t"
  shows "Promise_all (map (lookupType client key) ts)
           = Inr (map (\<lambda>t. if lookupFound client key t then Some t else None) ts)"
  using assms
  by (induction ts)
     (auto simp: lookupFails_def lookupType_def lookupFound_def split: sum.splits)

lemma filter_found:
  assumes "[] \<notin> set ts"
  shows "map the (filter truthy_type (map (\<lambda>t. if F t then Some t else None) ts)) = filter F ts"
  using assms by (induction ts) auto

lemma writes_ok:
  assumes "\<forall>t \<in> set rm. \<not> writeFails client key t"
  shows "\<exists>ids. Promise_all (map (\<lambda>(t, k, c). sendStateEvent client t k c)
                              (map (\<lambda>stateType. (stateType, key, [])) rm)) = Inr ids"
proof -
  have "\<exists>v. sendStateEvent client t key [] = Inr v" if "t \<in> set rm" for t
    using assms that by (cases "sendStateEvent client t key []") (auto simp: writeFails_def)
  then have "\<forall>p \<in> set (map (\<lambda>(t, k, c). sendStateEvent client t k c)
                     (map (\<lambda>stateType. (stateType, key, [])) rm)). \<exists>v. p = Inr v"
    by auto
  from Promise_all_Inr [OF this] show ?thesis by blast
qed

lemma writes_fail:
  assumes "\<exists>t \<in> set rm. writeFails client key t"
  shows "\<exists>t \<in> set rm. \<exists>e. sendStateEvent client t key [] = Inl e
           \<and> Promise_all (map (\<lambda>(t, k, c). sendStateEvent client t k c)
                            (map (\<lambda>stateType. (stateType, key, [])) rm)) = Inl e"
proof -
  from assms obtain t where t: "t \<in> set rm" and f: "writeFails client key t" by blast
  from f obtain e where e: "sendStateEvent client t key [] = Inl e"
    by (cases "sendStateEvent client t key []") (auto simp: writeFails_def)
  have "Inl e \<in> set (map (\<lambda>(t, k, c). sendStateEvent client t k c)
                     (map (\<lambda>stateType. (stateType, key, [])) rm))"
    using t e by (force simp: image_iff)
  then have "\<exists>e. Inl e \<in> set (map (\<lambda>(t, k, c). sendStateEvent client t k c)
                     (map (\<lambda>stateType. (stateType, key, [])) rm))" by blast
  from Promise_all_Inl [OF this] obtain e' where
    all: "Promise_all (map (\<lambda>(t, k, c). sendStateEvent client t k c)
                           (map (\<lambda>stateType. (stateType, key, [])) rm)) = Inl e'"
    and mem: "Inl e' \<in> set (map (\<lambda>(t, k, c). sendStateEvent client t k c)
                           (map (\<lambda>stateType. (stateType, key, [])) rm))" by blast
  from mem obtain t' where "t' \<in> set rm" and "sendStateEvent client t' key [] = Inl e'"
    by auto
  with all show ?thesis by blast
qed

lemma unbanEntity_on:
  assumes ts: "(if ruleType = RULE_USER then USER_RULE_TYPES
             else if ruleType = RULE_SERVER then SERVER_RULE_TYPES
             else if ruleType = RULE_ROOM then ROOM_RULE_TYPES
             else [ruleType]) = ts"
    and ne: "[] \<notin> set ts"
    and key: "key = ''rule:'' @ ent"
  shows "(\<exists>t \<in> set ts. lookupFails client key t) \<Longrightarrow>
           \<exists>t \<in> set ts. \<exists>e. getRoomStateEvent client t key = Inl e \<and> statusCode e \<noteq> Some 404
             \<and> unbanEntity client ruleType ent = (Inl e, [])"
    and "\<forall>t \<in> set ts. \<not> lookupFails client key t \<Longrightarrow>
         filter (lookupFound client key) ts = [] \<Longrightarrow>
           unbanEntity client ruleType ent = (Inr False, [])"
    and "\<forall>t \<in> set ts. \<not> lookupFails client key t \<Longrightarrow>
         filter (lookupFound client key) ts \<noteq> [] \<Longrightarrow>
         \<forall>t \<in> set (filter (lookupFound client key) ts). \<not> writeFails client key t \<Longrightarrow>
           unbanEntity client ruleType ent =
             (Inr True, map (\<lambda>t. (t, key, [])) (filter (lookupFound client key) ts))"
    and "\<forall>t \<in> set ts. \<not> lookupFails client key t \<Longrightarrow>
         \<exists>t \<in> set (filter (lookupFound client key) ts). writeFails client key t \<Longrightarrow>
           \<exists>t \<in> set (filter (lookupFound client key) ts). \<exists>e.
             sendStateEvent client t key [] = Inl e
             \<and> unbanEntity client ruleType ent =
                 (Inl e, map (\<lambda>t. (t, key, [])) (filter (lookupFound client key) ts))"
proof -
  let ?rm = "filter (lookupFound client key) ts"
  have unf: "unbanEntity client ruleType ent =
     (case Promise_all (map (lookupType client key) ts) of
           Inl e \<Rightarrow> (Inl e, [])
         | Inr found \<Rightarrow>
             (let typesToRemove = map the (filter truthy_type found) in
              if length typesToRemove = 0 then (Inr False, [])
              else
                (let writes = map (\<lambda>stateType. (stateType, key, [])) typesToRemove in
                 case Promise_all (map (\<lambda>(t, k, c). sendStateEvent client t k c) writes) of
                   Inl e \<Rightarrow> (Inl e, writes)
                 | Inr ids \<Rightarrow> (Inr True, writes))))"
    unfolding unbanEntity_def Let_def ts [symmetric] key by (rule refl)
  {
    assume "\<exists>t \<in> set ts. lookupFails client key t"
    from lookups_fail [OF this]
    show "\<exists>t \<in> set ts. \<exists>e. getRoomStateEvent client t key = Inl e \<and> statusCode e \<noteq> Some 404
             \<and> unbanEntity client ruleType ent = (Inl e, [])"
      by (auto simp: unf)
  }
  {
    assume ok: "\<forall>t \<in> set ts. \<not> lookupFails client key t" and "?rm = []"
    then show "unbanEntity client ruleType ent = (Inr False, [])"
      by (simp add: unf lookups_ok [OF ok] filter_found [OF ne])
  }
  {
    assume ok: "\<forall>t \<in> set ts. \<not> lookupFails client key t" and rm: "?rm \<noteq> []"
      and w: "\<forall>t \<in> set ?rm. \<not> writeFails client key t"
    from writes_ok [OF w] obtain ids where
      "Promise_all (map (\<lambda>(t, k, c). sendStateEvent client t k c)
                        (map (\<lambda>stateType. (stateType, key, [])) ?rm)) = Inr ids" by blast
    with rm show "unbanEntity client ruleType ent =
             (Inr True, map (\<lambda>t. (t, key, [])) ?rm)"
      by (simp add: unf lookups_ok [OF ok] filter_found [OF ne] Let_def)
  }
  {
    assume ok: "\<forall>t \<in> set ts. \<not> lookupFails client key t"
      and w: "\<exists>t \<in> set ?rm. writeFails client key t"
    then have rm: "?rm \<noteq> []" by (auto simp: filter_empty_conv)
    from writes_fail [OF w] obtain t e where t: "t \<in> set ?rm"
      and e: "sendStateEvent client t key [] = Inl e"
      and all: "Promise_all (map (\<lambda>(t, k, c). sendStateEvent client t k c)
                        (map (\<lambda>stateType. (stateType, key, [])) ?rm)) = Inl e" by blast
    from all rm have "unbanEntity client ruleType ent = (Inl e, map (\<lambda>t. (t, key, [])) ?rm)"
      by (simp add: unf lookups_ok [OF ok] filter_found [OF ne] Let_def)
    with t e show "\<exists>t \<in> set ?rm. \<exists>e. sendStateEvent client t key [] = Inl e
             \<and> unbanEntity client ruleType ent = (Inl e, map (\<lambda>t. (t, key, [])) ?rm)"
      by blast
  }
qed

lemma typesToCheck_kind:
  assumes "k = RULE_USER \<or> k = RULE_ROOM \<or> k = RULE_SERVER"
  shows "(if k = RULE_USER then USER_RULE_TYPES
             else if k = RULE_SERVER then SERVER_RULE_TYPES
             else if k = RULE_ROOM then ROOM_RULE_TYPES
             else [k]) = aliasTable k"
  using assms by (auto simp: aliasTable_def RULE_USER_def RULE_ROOM_def RULE_SERVER_def)

lemma aliasTable_nonempty_types:
  "[] \<notin> set (aliasTable k)"
  by (simp add: aliasTable_def table_defs)

text \<open>
  C9. For a normalized kind, with the state key \<open>rule:<entity>\<close>: when no lookup fails
  other than with 404 and no clearing write is rejected, the call answers whether some
  alias type of the kind holds a record, and the writes issued are exactly one
  empty-content write for each alias type that holds one, in table order; when every
  lookup answers 404 it answers \<open>false\<close> and writes nothing; when a lookup fails otherwise
  the call is rejected with the failure of such a lookup and nothing is written; when a
  clearing write is rejected the call is rejected with the failure of such a write.
\<close>

theorem unbanEntity_kind:
  assumes "k = RULE_USER \<or> k = RULE_ROOM \<or> k = RULE_SERVER"
  shows
   "((\<forall>t \<in> set (aliasTable k). \<not> lookupFails client (''rule:'' @ ent) t)
      \<and> (\<forall>t \<in> set (aliasTable k). lookupFound client (''rule:'' @ ent) t
             \<longrightarrow> \<not> writeFails client (''rule:'' @ ent) t)
      \<longrightarrow> unbanEntity client k ent =
            (Inr (\<exists>t \<in> set (aliasTable k). lookupFound client (''rule:'' @ ent) t),
             map (\<lambda>t. (t, ''rule:'' @ ent, []))
                 (filter (lookupFound client (''rule:'' @ ent)) (aliasTable k))))
  \<and> ((\<forall>t \<in> set (aliasTable k). lookupNotFound client (''rule:'' @ ent) t)
      \<longrightarrow> unbanEntity client k ent = (Inr False, []))
  \<and> ((\<exists>t \<in> set (aliasTable k). lookupFails client (''rule:'' @ ent) t)
      \<longrightarrow> (\<exists>t \<in> set (aliasTable k). \<exists>e.
             getRoomStateEvent client t (''rule:'' @ ent) = Inl e \<and> statusCode e \<noteq> Some 404
             \<and> unbanEntity client k ent = (Inl e, [])))
  \<and> ((\<forall>t \<in> set (aliasTable k). \<not> lookupFails client (''rule:'' @ ent) t)
      \<and> (\<exists>t \<in> set (aliasTable k). lookupFound client (''rule:'' @ ent) t
             \<and> writeFails client (''rule:'' @ ent) t)
      \<longrightarrow> (\<exists>t \<in> set (aliasTable k). \<exists>e.
             lookupFound client (''rule:'' @ ent) t
             \<and> sendStateEvent client t (''rule:'' @ ent) [] = Inl e
             \<and> unbanEntity client k ent =
                 (Inl e, map (\<lambda>t. (t, ''rule:'' @ ent, []))
                             (filter (lookupFound client (''rule:'' @ ent)) (aliasTable k)))))"
proof -
  let ?key = "''rule:'' @ ent"
  let ?ts = "aliasTable k"
  let ?rm = "filter (lookupFound client ?key) ?ts"
  note on = unbanEntity_on [OF typesToCheck_kind [OF assms] aliasTable_nonempty_types refl,
      of client ent]
  have p1: "unbanEntity client k ent =
            (Inr (\<exists>t \<in> set ?ts. lookupFound client ?key t), map (\<lambda>t. (t, ?key, [])) ?rm)"
    if ok: "\<forall>t \<in> set ?ts. \<not> lookupFails client ?key t"
      and w: "\<forall>t \<in> set ?ts. lookupFound client ?key t \<longrightarrow> \<not> writeFails client ?key t"
  proof (cases "?rm = []")
    case True
    then have "\<not> (\<exists>t \<in> set ?ts. lookupFound client ?key t)"
      by (simp add: filter_empty_conv)
    with on(2) [OF ok True] True show ?thesis by simp
  next
    case False
    then have ex: "\<exists>t \<in> set ?ts. lookupFound client ?key t"
      by (simp add: filter_empty_conv)
    from w have "\<forall>t \<in> set ?rm. \<not> writeFails client ?key t" by simp
    from on(3) [OF ok False this] ex show ?thesis by simp
  qed
  have p2: "unbanEntity client k ent = (Inr False, [])"
    if nf: "\<forall>t \<in> set ?ts. lookupNotFound client ?key t"
  proof -
    from nf have ok: "\<forall>t \<in> set ?ts. \<not> lookupFails client ?key t"
      by (auto simp: lookupNotFound_def lookupFails_def split: sum.splits)
    from nf have "?rm = []"
      by (auto simp: filter_empty_conv lookupNotFound_def lookupFound_def split: sum.splits)
    from on(2) [OF ok this] show ?thesis .
  qed
  have p4: "\<exists>t \<in> set ?ts. \<exists>e. lookupFound client ?key t
             \<and> sendStateEvent client t ?key [] = Inl e
             \<and> unbanEntity client k ent = (Inl e, map (\<lambda>t. (t, ?key, [])) ?rm)"
    if ok: "\<forall>t \<in> set ?ts. \<not> lookupFails client ?key t"
      and w: "\<exists>t \<in> set ?ts. lookupFound client ?key t \<and> writeFails client ?key t"
  proof -
    from w have "\<exists>t \<in> set ?rm. writeFails client ?key t" by auto
    from on(4) [OF ok this] show ?thesis by auto
  qed
  from p1 p2 on(1) p4 show ?thesis by blast
qed

theorem unbanEntity_kind_witness:
  "unbanEntity ex_client RULE_USER ''@a:example.org'' =
     (Inr True, [(''m.policy.rule.user'', ''rule:@a:example.org'', []),
                 (''org.matrix.mjolnir.rule.user'', ''rule:@a:example.org'', [])])
 \<and> list_all (lookupNotFound ex_client (''rule:'' @ ''@b:example.org'')) (aliasTable RULE_USER)
 \<and> unbanEntity ex_client RULE_USER ''@b:example.org'' = (Inr False, [])
 \<and> (\<exists>t \<in> set (aliasTable RULE_USER). lookupFails ex_client_down (''rule:'' @ ''@a:example.org'') t)
 \<and> (\<exists>e. unbanEntity ex_client_down RULE_USER ''@a:example.org'' = (Inl e, []))
 \<and> (\<exists>t \<in> set (aliasTable RULE_USER). lookupFound ex_client_readonly (''rule:'' @ ''@a:example.org'') t
        \<and> writeFails ex_client_readonly (''rule:'' @ ''@a:example.org'') t)
 \<and> (\<exists>e. fst (unbanEntity ex_client_readonly RULE_USER ''@a:example.org'') = Inl e)"
proof -
  have k: "RULE_USER = RULE_USER \<or> RULE_USER = RULE_ROOM \<or> RULE_USER = RULE_SERVER" by simp
  have a1: "\<forall>t \<in> set (aliasTable RULE_USER). \<not> lookupFails ex_client (''rule:'' @ ''@a:example.org'') t"
    by code_simp
  have a2: "\<forall>t \<in> set (aliasTable RULE_USER). lookupFound ex_client (''rule:'' @ ''@a:example.org'') t
             \<longrightarrow> \<not> writeFails ex_client (''rule:'' @ ''@a:example.org'') t"
    by code_simp
  have a3: "((Inr (\<exists>t \<in> set (aliasTable RULE_USER). lookupFound ex_client (''rule:'' @ ''@a:example.org'') t),
             map (\<lambda>t. (t, ''rule:'' @ ''@a:example.org'', []))
                 (filter (lookupFound ex_client (''rule:'' @ ''@a:example.org'')) (aliasTable RULE_USER)))
            :: (error + bool) \<times> (string \<times> string \<times> (string \<times> json) list) list)
          = (Inr True, [(''m.policy.rule.user'', ''rule:@a:example.org'', []),
                 (''org.matrix.mjolnir.rule.user'', ''rule:@a:example.org'', [])])"
    by code_simp
  have b1: "\<forall>t \<in> set (aliasTable RULE_USER). lookupNotFound ex_client (''rule:'' @ ''@b:example.org'') t"
    by code_simp
  have c1: "\<exists>t \<in> set (aliasTable RULE_USER). lookupFails ex_client_down (''rule:'' @ ''@a:example.org'') t"
    by code_simp
  have d1: "\<forall>t \<in> set (aliasTable RULE_USER). \<not> lookupFails ex_client_readonly (''rule:'' @ ''@a:example.org'') t"
    by code_simp
  have d2: "\<exists>t \<in> set (aliasTable RULE_USER). lookupFound ex_client_readonly (''rule:'' @ ''@a:example.org'') t
        \<and> writeFails ex_client_readonly (''rule:'' @ ''@a:example.org'') t"
    by code_simp
  from unbanEntity_kind [OF k, of ex_client "''@a:example.org''"] a1 a2
  have "unbanEntity ex_client RULE_USER ''@a:example.org'' =
     (Inr (\<exists>t \<in> set (aliasTable RULE_USER). lookupFound ex_client (''rule:'' @ ''@a:example.org'') t),
             map (\<lambda>t. (t, ''rule:'' @ ''@a:example.org'', []))
                 (filter (lookupFound ex_client (''rule:'' @ ''@a:example.org'')) (aliasTable RULE_USER)))"
    by blast
  then have r1: "unbanEntity ex_client RULE_USER ''@a:example.org'' =
     (Inr True, [(''m.policy.rule.user'', ''rule:@a:example.org'', []),
                 (''org.matrix.mjolnir.rule.user'', ''rule:@a:example.org'', [])])"
    using a3 by (rule trans)
  from unbanEntity_kind [OF k, of ex_client "''@b:example.org''"] b1
  have r2: "unbanEntity ex_client RULE_USER ''@b:example.org'' = (Inr False, [])" by blast
  from unbanEntity_kind [OF k, of ex_client_down "''@a:example.org''"] c1
  have r3: "\<exists>e. unbanEntity ex_client_down RULE_USER ''@a:example.org'' = (Inl e, [])" by blast
  from unbanEntity_kind [OF k, of ex_client_readonly "''@a:example.org''"] d1 d2
  have "\<exists>t \<in> set (aliasTable RULE_USER). \<exists>e.
          lookupFound ex_client_readonly (''rule:'' @ ''@a:example.org'') t
          \<and> sendStateEvent ex_client_readonly t (''rule:'' @ ''@a:example.org'') [] = Inl e
          \<and> unbanEntity ex_client_readonly RULE_USER ''@a:example.org'' =
              (Inl e, map (\<lambda>t. (t, ''rule:'' @ ''@a:example.org'', []))
                 (filter (lookupFound ex_client_readonly (''rule:'' @ ''@a:example.org''))
                    (aliasTable RULE_USER)))"
    by blast
  then have r4: "\<exists>e. fst (unbanEntity ex_client_readonly RULE_USER ''@a:example.org'') = Inl e"
    by auto
  from b1 have b2: "list_all (lookupNotFound ex_client (''rule:'' @ ''@b:example.org''))
      (aliasTable RULE_USER)"
    by (simp add: list_all_iff)
  from r1 b2 r2 c1 r3 d2 r4 show ?thesis by blast
qed

text \<open>
  Called with a non-empty rule type that is none of the three normalized kinds,
  \<open>unbanEntity\<close> does not expand the type to an alias family: it looks up exactly that
  type and, if a record is found, issues the clearing write for that type only and answers
  \<open>true\<close>; a 404 gives \<open>false\<close> without a write, and any other rejection of the lookup
  or of the write is passed on.
\<close>

lemma unbanEntity_other:
  assumes "ruleType \<noteq> RULE_USER" and "ruleType \<noteq> RULE_ROOM" and "ruleType \<noteq> RULE_SERVER"
    and "ruleType \<noteq> []"
  shows "unbanEntity client ruleType ent =
     (case getRoomStateEvent client ruleType (''rule:'' @ ent) of
        Inr c \<Rightarrow>
          (case sendStateEvent client ruleType (''rule:'' @ ent) [] of
             Inr i \<Rightarrow> (Inr True, [(ruleType, ''rule:'' @ ent, [])])
           | Inl e \<Rightarrow> (Inl e, [(ruleType, ''rule:'' @ ent, [])]))
      | Inl e \<Rightarrow> if statusCode e = Some 404 then (Inr False, []) else (Inl e, []))"
  using assms
  by (simp add: unbanEntity_def lookupType_def Let_def split: sum.splits)

text \<open>
  C10. The code at the empty string as rule type: it is none of the three kinds and the
  lookup of exactly that type finds a record, but \<open>filter(e => e)\<close>, there to remove the
  nulls, drops the empty type as well; no clearing write is issued and the call answers
  \<open>false\<close>, which its documentation reserves for the case that there were no rules.
\<close>

theorem unbanEntity_empty_type:
  "[] \<noteq> RULE_USER \<and> [] \<noteq> RULE_ROOM \<and> [] \<noteq> RULE_SERVER
 \<and> getRoomStateEvent ex_client_any [] ''rule:@a:example.org'' = Inr []
 \<and> unbanEntity ex_client_any [] ''@a:example.org'' = (Inr False, [])"
  by code_simp

section \<open>UpdateBatcher\<close>






lemma timers_punctual_fire: "timers_punctual prev rounds \<Longrightarrow> timers_fire prev rounds"
  by (induction prev rounds rule: timers_fire.induct) auto




text \<open>
  C6. The code at the input of the claim: \<open>m1\<close> starts the loop at time 0, \<open>m2\<close> arrives
  during the first sleep, then nothing arrives any more. The loop is still waiting after
  two and after fourteen sleeps and ends only at 3000 ms, whereas after \<open>m1\<close> alone it
  ends with the first sleep.
\<close>

theorem second_marker_waits:
  "addToBatch ex_idle ''m1'' = (ex_waiting, Some ''m1'')
 \<and> timers_punctual 0 ex_silence
 \<and> map fst ex_silence = [''m2''] # replicate 14 []
 \<and> checkBatch ''m1'' 0 ex_waiting (take 2 ex_silence) = None
 \<and> checkBatch ''m1'' 0 ex_waiting (take 14 ex_silence) = None
 \<and> checkBatch ''m1'' 0 ex_waiting ex_silence =
     Some \<lparr>batcher_after = ex_idle, finished_at = 3000, sleeps = 15,
            spawned_meanwhile = [], batches_emitted = 1\<rparr>
 \<and> checkBatch ''m1'' 0 ex_waiting [([], 200)] =
     Some \<lparr>batcher_after = ex_idle, finished_at = 200, sleeps = 1,
            spawned_meanwhile = [], batches_emitted = 1\<rparr>"
  by code_simp

section \<open>Running the same state twice\<close>

lemma map_of_Map_set: "map_of (Map_set k v al) = (map_of al)(k \<mapsto> v)"
  by (induction al) (auto simp: fun_eq_iff)

lemma Map_set_same: "map_of al k = Some v \<Longrightarrow> Map_set k v al = al"
  by (induction al) (auto split: if_splits)

lemma getState_setState_same: "getState (setState bl k s v) k s = Some v"
  by (auto simp: getState_def setState_def map_of_Map_set split: option.splits)

lemma getState_setState_other:
  "(k', s') \<noteq> (k, s) \<Longrightarrow> getState (setState bl k s v) k' s' = getState bl k' s'"
  by (auto simp: getState_def setState_def map_of_Map_set split: option.splits)

lemma setState_same: "getState bl k s = Some v \<Longrightarrow> setState bl k s v = bl"
  by (auto simp: getState_def setState_def Map_set_same split: option.splits)

lemma shortcode_setState: "shortcode (setState bl k s v) = shortcode bl"
  by (auto simp: setState_def split: option.splits)

lemma getState_shortcode_update: "getState (bl\<lparr>shortcode := x\<rparr>) k s = getState bl k s"
  by (simp add: getState_def)

lemma processEvent_ruleStep:
  assumes "kindOf (ev_type ev) = Some k" and "state_key ev \<noteq> []"
  shows "processEvent bl ev =
     (case ruleStep k (getState bl k (state_key ev)) ev of
        None \<Rightarrow> (bl, Inr None)
      | Some (ev', r) \<Rightarrow> (setState bl k (state_key ev) ev', r))"
  unfolding processEvent_rule [OF assms] ruleStep_def Let_def
  by (auto split: sum.splits prod.splits option.splits)


lemma parseEvent_stored:
  assumes "parseEvent k previous ct ev = Inr (ev', c)"
  shows "ev_type ev' = ev_type ev \<and> event_id ev' = event_id ev \<and> state_key ev' = state_key ev"
  using assms
  by (auto simp: parseEvent_def Let_def split: option.splits if_splits)

lemma ruleStep_stored:
  assumes "ruleStep k previous ev = Some (ev', r)"
  shows "ev_type ev' = ev_type ev \<and> event_id ev' = event_id ev"
  using assms parseEvent_stored
  by (auto simp: ruleStep_def split: if_splits sum.splits prod.splits)

lemma obsolete_same_type: "ev_type p = ev_type ev \<Longrightarrow> \<not> obsolete k ev p"
  by (simp add: obsolete_def)

text \<open>What the first pass leaves in the table for an event that it accepted.\<close>

lemma parseEvent_shape:
  assumes "parseEvent k previous ct ev = Inr (ev', c)"
    and "rule_of ev = None"
    and "ct = Some Removed \<longrightarrow> \<not> hasRule ev"
  shows "(\<not> hasRule ev \<and> ev' = ev)
       \<or> (hasRule ev \<and> parseEvent k (Some ev') None ev = Inr (ev', None))"
  using assms
  by (auto simp: parseEvent_def hasRule_def Let_def rule_of_def
           split: option.splits if_splits)

lemma ruleStep_fixpoint:
  assumes step: "ruleStep k previous ev = Some (ev', Inr c)"
    and fresh: "rule_of ev = None"
    and red: "redaction_of ev \<noteq> None \<longrightarrow> \<not> hasRule ev"
  shows "ruleStep k (Some ev') ev = Some (ev', Inr None)"
proof -
  from step obtain ct where ct: "changeTypeOf previous ev = Inr ct"
    and pe: "parseEvent k previous ct ev = Inr (ev', c)"
    by (auto simp: ruleStep_def split: if_splits sum.splits prod.splits)
  have nr: "ct = Some Removed \<longrightarrow> \<not> hasRule ev"
    using ct changeTypeOf_Removed_no_rule [OF _ red] by blast
  from parseEvent_stored [OF pe] have ty: "ev_type ev' = ev_type ev"
    and id: "event_id ev' = event_id ev" by simp_all
  have nobs: "\<not> obsolete k ev ev'" using ty by (rule obsolete_same_type)
  from parseEvent_shape [OF pe fresh nr]
  show ?thesis
  proof
    assume a: "\<not> hasRule ev \<and> ev' = ev"
    then have "parseEvent k (Some ev) ct' ev = Inr (ev, None)" for ct'
      using fresh by (intro parseEvent_quiet) auto
    with a nobs id show ?thesis
      by (simp add: ruleStep_def changeTypeOf_def)
  next
    assume a: "hasRule ev \<and> parseEvent k (Some ev') None ev = Inr (ev', None)"
    with red have "redaction_of ev = None" by blast
    with a nobs id show ?thesis
      by (simp add: ruleStep_def changeTypeOf_def)
  qed
qed


lemma kindOf_None: "kindOf t = None \<longleftrightarrow> t \<notin> set ALL_RULE_TYPES"
  by (auto simp: kindOf_def ALL_RULE_TYPES_def)

lemma settled_fixpoint:
  assumes "settled bl ev"
  shows "processEvent bl ev = (bl, Inr None)"
proof (cases "state_key ev = [] \<and> ev_type ev = SHORTCODE_EVENT_TYPE")
  case True
  with assms show ?thesis by (simp add: settled_def)
next
  case notS: False
  show ?thesis
  proof (cases "state_key ev = [] \<or> ev_type ev \<notin> set ALL_RULE_TYPES")
    case True
    with notS show ?thesis by (auto simp: processEvent_def)
  next
    case False
    then obtain k where k: "kindOf (ev_type ev) = Some k" and key: "state_key ev \<noteq> []"
      using kindOf_None [of "ev_type ev"] by auto
    from assms notS False k obtain p where p: "getState bl k (state_key ev) = Some p"
      and dis: "obsolete k ev p \<or> ruleStep k (Some p) ev = Some (p, Inr None)"
      by (auto simp: settled_def split: option.splits)
    show ?thesis
    proof (cases "obsolete k ev p")
      case True
      then show ?thesis
        by (simp add: processEvent_ruleStep [OF k key] p ruleStep_def)
    next
      case False
      with dis have "ruleStep k (Some p) ev = Some (p, Inr None)" by simp
      then show ?thesis
        by (simp add: processEvent_ruleStep [OF k key] p setState_same [OF p])
    qed
  qed
qed

lemma settled_after:
  assumes step: "processEvent bl ev = (bl', Inr c)"
    and fresh: "rule_of ev = None"
    and red: "redaction_of ev \<noteq> None \<longrightarrow> \<not> hasRule ev"
  shows "settled bl' ev"
proof (cases "state_key ev = [] \<and> ev_type ev = SHORTCODE_EVENT_TYPE")
  case True
  with step show ?thesis by (auto simp: settled_def processEvent_def)
next
  case notS: False
  show ?thesis
  proof (cases "state_key ev = [] \<or> ev_type ev \<notin> set ALL_RULE_TYPES")
    case True
    with notS show ?thesis by (auto simp: settled_def)
  next
    case False
    then obtain k where k: "kindOf (ev_type ev) = Some k" and key: "state_key ev \<noteq> []"
      using kindOf_None [of "ev_type ev"] by auto
    show ?thesis
    proof (cases "ruleStep k (getState bl k (state_key ev)) ev")
      case None
      with step have same: "bl' = bl" by (simp add: processEvent_ruleStep [OF k key])
      from None obtain p where "getState bl k (state_key ev) = Some p" and "obsolete k ev p"
        by (auto simp: ruleStep_def split: if_splits option.splits)
      with same notS False k show ?thesis by (simp add: settled_def)
    next
      case (Some res)
      obtain ev' r where res: "res = (ev', r)" by (cases res)
      from step Some res have bl': "bl' = setState bl k (state_key ev) ev'" and r: "r = Inr c"
        by (simp_all add: processEvent_ruleStep [OF k key])
      from Some res r have "ruleStep k (getState bl k (state_key ev)) ev = Some (ev', Inr c)"
        by simp
      from ruleStep_fixpoint [OF this fresh red]
      have "ruleStep k (Some ev') ev = Some (ev', Inr None)" .
      with bl' notS False k show ?thesis
        by (simp add: settled_def getState_setState_same)
    qed
  qed
qed

lemma processEvent_effect:
  assumes "processEvent bl e2 = (bl2, r2)"
  shows "(state_key e2 = [] \<and> ev_type e2 = SHORTCODE_EVENT_TYPE \<and> (\<exists>x. bl2 = bl\<lparr>shortcode := x\<rparr>))
       \<or> bl2 = bl
       \<or> (\<exists>k2 e2'. kindOf (ev_type e2) = Some k2 \<and> state_key e2 \<noteq> []
             \<and> bl2 = setState bl k2 (state_key e2) e2' \<and> ev_type e2' = ev_type e2
             \<and> (\<forall>p. getState bl k2 (state_key e2) = Some p \<longrightarrow> \<not> obsolete k2 e2 p))"
proof (cases "state_key e2 = [] \<and> ev_type e2 = SHORTCODE_EVENT_TYPE")
  case True
  with assms show ?thesis by (auto simp: processEvent_def)
next
  case notS: False
  show ?thesis
  proof (cases "state_key e2 = [] \<or> ev_type e2 \<notin> set ALL_RULE_TYPES")
    case True
    with notS assms show ?thesis by (auto simp: processEvent_def)
  next
    case False
    then obtain k2 where k: "kindOf (ev_type e2) = Some k2" and key: "state_key e2 \<noteq> []"
      using kindOf_None [of "ev_type e2"] by auto
    show ?thesis
    proof (cases "ruleStep k2 (getState bl k2 (state_key e2)) e2")
      case None
      with assms show ?thesis by (simp add: processEvent_ruleStep [OF k key])
    next
      case (Some res)
      obtain e2' r where res: "res = (e2', r)" by (cases res)
      from assms Some res have "bl2 = setState bl k2 (state_key e2) e2'"
        by (simp add: processEvent_ruleStep [OF k key])
      moreover from Some res have "ev_type e2' = ev_type e2"
        using ruleStep_stored by blast
      moreover from Some have "\<forall>p. getState bl k2 (state_key e2) = Some p \<longrightarrow> \<not> obsolete k2 e2 p"
        by (auto simp: ruleStep_def split: if_splits)
      ultimately show ?thesis using k key by blast
    qed
  qed
qed

lemma settled_preserved:
  assumes st: "settled bl ev"
    and step: "processEvent bl e2 = (bl2, r2)"
    and diff: "(ev_type e2, state_key e2) \<noteq> (ev_type ev, state_key ev)"
  shows "settled bl2 ev"
proof (cases "state_key ev = [] \<and> ev_type ev = SHORTCODE_EVENT_TYPE")
  case True
  define V where "V = (case content ev of None \<Rightarrow> None
      | Some c \<Rightarrow> if truthy_opt (map_of c ''shortcode'') then map_of c ''shortcode'' else None)"
  have pe: "processEvent b ev = (b\<lparr>shortcode := V\<rparr>, Inr None)" for b
    using True by (simp add: processEvent_def V_def)
  from st True have "processEvent bl ev = (bl, Inr None)" by (simp add: settled_def)
  with pe have eq: "bl\<lparr>shortcode := V\<rparr> = bl" by simp
  from arg_cong [OF eq, of shortcode] have sc: "shortcode bl = V" by simp
  from True diff have notS2: "\<not> (state_key e2 = [] \<and> ev_type e2 = SHORTCODE_EVENT_TYPE)" by auto
  with processEvent_effect [OF step] have "shortcode bl2 = shortcode bl"
    by (auto simp: shortcode_setState)
  with sc have "shortcode bl2 = V" by simp
  then have "bl2\<lparr>shortcode := V\<rparr> = bl2" by (cases bl2) simp
  with pe [of bl2] have "processEvent bl2 ev = (bl2, Inr None)" by simp
  with True show ?thesis by (simp add: settled_def)
next
  case notS: False
  show ?thesis
  proof (cases "state_key ev = [] \<or> ev_type ev \<notin> set ALL_RULE_TYPES")
    case True
    with notS show ?thesis by (auto simp: settled_def)
  next
    case False
    then obtain k where k: "kindOf (ev_type ev) = Some k" and key: "state_key ev \<noteq> []"
      using kindOf_None [of "ev_type ev"] by auto
    from st notS False k obtain p where p: "getState bl k (state_key ev) = Some p"
      and dis: "obsolete k ev p \<or> ruleStep k (Some p) ev = Some (p, Inr None)"
      by (auto simp: settled_def split: option.splits)
    have goal: "settled bl2 ev" if "getState bl2 k (state_key ev) = Some p"
      using that notS False k dis by (simp add: settled_def)
    from processEvent_effect [OF step]
    consider (sc) x where "bl2 = bl\<lparr>shortcode := x\<rparr>" | (same) "bl2 = bl"
      | (set) k2 e2' where "kindOf (ev_type e2) = Some k2" "state_key e2 \<noteq> []"
          "bl2 = setState bl k2 (state_key e2) e2'" "ev_type e2' = ev_type e2"
          "\<forall>q. getState bl k2 (state_key e2) = Some q \<longrightarrow> \<not> obsolete k2 e2 q"
      by blast
    then show ?thesis
    proof cases
      case sc
      then show ?thesis using goal p by (simp add: getState_shortcode_update)
    next
      case same
      then show ?thesis using goal p by simp
    next
      case set
      show ?thesis
      proof (cases "(k2, state_key e2) = (k, state_key ev)")
        case False
        then have "getState bl2 k (state_key ev) = getState bl k (state_key ev)"
          using set(3) getState_setState_other [of k "state_key ev" k2 "state_key e2" bl e2']
          by auto
        with goal p show ?thesis by simp
      next
        case True
        then have k2: "k2 = k" and s2: "state_key e2 = state_key ev" by simp_all
        from diff s2 have tdiff: "ev_type e2 \<noteq> ev_type ev" by simp
        from set(5) p k2 s2 have nobs: "\<not> obsolete k e2 p" by simp
        note oa = obsolete_alias [OF kindOf_cases [OF k]]
        let ?i = "indexOf (aliasTable k)"
        from nobs have le: "?i (ev_type e2) \<le> ?i (ev_type p)" by (simp add: oa)
        have lt: "?i (ev_type e2) < ?i (ev_type ev)"
        proof (cases "obsolete k ev p")
          case True
          with le show ?thesis by (simp add: oa)
        next
          case False
          with dis have "ruleStep k (Some p) ev = Some (p, Inr None)" by simp
          from ruleStep_stored [OF this] have "ev_type p = ev_type ev" by simp
          with le have le': "?i (ev_type e2) \<le> ?i (ev_type ev)" by simp
          have "?i (ev_type ev) \<noteq> ?i (ev_type e2)"
            using indexOf_inj [OF kindOf_alias [OF k], of "ev_type e2"] tdiff by auto
          with le' show ?thesis by simp
        qed
        then have "obsolete k ev e2'" using set(4) by (simp add: oa)
        moreover have "getState bl2 k (state_key ev) = Some e2'"
          using set(3) k2 s2 by (simp add: getState_setState_same)
        ultimately show ?thesis using notS False k by (simp add: settled_def)
      qed
    qed
  qed
qed

lemma settled_loop:
  assumes "settled bl ev"
    and "updateList_loop bl chs rest = (bl1, r)"
    and "\<forall>e2 \<in> set rest. (ev_type e2, state_key e2) \<noteq> (ev_type ev, state_key ev)"
  shows "settled bl1 ev"
  using assms
proof (induction rest arbitrary: bl chs)
  case Nil
  then show ?case by simp
next
  case (Cons e2 rest)
  obtain bl2 r2 where step: "processEvent bl e2 = (bl2, r2)" by (cases "processEvent bl e2")
  from Cons.prems(3) have d: "(ev_type e2, state_key e2) \<noteq> (ev_type ev, state_key ev)"
    and drest: "\<forall>e2 \<in> set rest. (ev_type e2, state_key e2) \<noteq> (ev_type ev, state_key ev)"
    by simp_all
  from settled_preserved [OF Cons.prems(1) step d] have s2: "settled bl2 ev" .
  show ?case
  proof (cases r2)
    case (Inl e)
    with Cons.prems(2) step have "bl1 = bl2" by simp
    with s2 show ?thesis by simp
  next
    case (Inr c)
    then obtain chs' where "updateList_loop bl2 chs' rest = (bl1, r)"
      using Cons.prems(2) step by (cases c) auto
    from Cons.IH [OF s2 this drest] show ?thesis .
  qed
qed

lemma all_settled_after:
  assumes "updateList_loop bl chs evs = (bl1, Inr chs1)"
    and "distinct (map (\<lambda>e. (ev_type e, state_key e)) evs)"
    and "\<forall>e \<in> set evs. rule_of e = None"
    and "\<forall>e \<in> set evs. redaction_of e \<noteq> None \<longrightarrow> \<not> hasRule e"
  shows "\<forall>e \<in> set evs. settled bl1 e"
  using assms
proof (induction evs arbitrary: bl chs)
  case Nil
  then show ?case by simp
next
  case (Cons ev rest)
  obtain bl2 r2 where step: "processEvent bl ev = (bl2, r2)" by (cases "processEvent bl ev")
  from Cons.prems(1) step obtain c chs' where r2: "r2 = Inr c"
    and loop: "updateList_loop bl2 chs' rest = (bl1, Inr chs1)"
    by (cases r2; cases "projr r2") auto
  from Cons.prems(2) have drest: "distinct (map (\<lambda>e. (ev_type e, state_key e)) rest)"
    and notin: "(ev_type ev, state_key ev) \<notin> (\<lambda>e. (ev_type e, state_key e)) ` set rest"
    by simp_all
  have dev: "\<forall>e2 \<in> set rest. (ev_type e2, state_key e2) \<noteq> (ev_type ev, state_key ev)"
  proof
    fix e2 assume "e2 \<in> set rest"
    then have "(ev_type e2, state_key e2) \<in> (\<lambda>e. (ev_type e, state_key e)) ` set rest"
      by (rule imageI)
    with notin show "(ev_type e2, state_key e2) \<noteq> (ev_type ev, state_key ev)"
      by metis
  qed
  from Cons.prems(3,4) have "rule_of ev = None" "redaction_of ev \<noteq> None \<longrightarrow> \<not> hasRule ev"
    by simp_all
  from settled_after [OF step [unfolded r2] this] have "settled bl2 ev" .
  from settled_loop [OF this loop dev] have "settled bl1 ev" .
  moreover from Cons.IH [OF loop drest] Cons.prems(3,4) have "\<forall>e \<in> set rest. settled bl1 e"
    by simp
  ultimately show ?case by simp
qed

lemma settled_pass:
  assumes "\<forall>e \<in> set evs. settled bl e"
  shows "updateList_loop bl chs evs = (bl, Inr chs)"
  using assms by (induction evs) (simp_all add: settled_fixpoint)

lemma processEvent_wellFormed:
  assumes "wellFormed ev"
  shows "\<exists>bl' c. processEvent bl ev = (bl', Inr c)"
proof (cases "kindOf (ev_type ev) = None \<or> state_key ev = []")
  case True
  then show ?thesis by (auto simp: processEvent_def kindOf_None)
next
  case False
  then obtain k where k: "kindOf (ev_type ev) = Some k" and key: "state_key ev \<noteq> []" by auto
  from assms obtain cnt u where cu: "content ev = Some cnt" "unsigned ev = Some u"
    by (auto simp: wellFormed_def)
  have "\<exists>ct. changeTypeOf previous ev = Inr ct" for previous
    using cu by (auto simp: changeTypeOf_def split: option.splits)
  moreover have "\<exists>ev' c. parseEvent k previous ct ev = Inr (ev', c)" for previous ct
    using cu by (auto simp: parseEvent_def Let_def split: option.splits)
  ultimately show ?thesis
    unfolding processEvent_rule [OF k key] Let_def
    by (auto split: sum.splits prod.splits option.splits) (metis Inl_Inr_False prod.inject)+
qed

lemma updateList_loop_wellFormed:
  assumes "list_all wellFormed evs"
  shows "\<exists>bl1 changes1. updateList_loop bl chs evs = (bl1, Inr changes1)"
  using assms
proof (induction evs arbitrary: bl chs)
  case Nil
  then show ?case by simp
next
  case (Cons ev evs)
  then have "wellFormed ev" and rest: "list_all wellFormed evs" by simp_all
  from processEvent_wellFormed [OF this(1), of bl] obtain bl' c where
    "processEvent bl ev = (bl', Inr c)" by blast
  with Cons.IH [OF rest] show ?case by (cases c) auto
qed

text \<open>
  C3. For every record set as the homeserver returns it: when a run of \<open>updateList\<close> on
  it completes, a second run on the same record set completes as well, returns no change
  and leaves the ban list as it is; and when every record has its content and its
  \<open>unsigned\<close> part, the first run does complete, so that the two runs in succession end
  with an empty sequence of changes.
\<close>

theorem updateList_idempotent:
  assumes "fromStore evs"
  shows "(updateList bl (Inr evs) = (bl1, Inr changes1)
            \<longrightarrow> updateList bl1 (Inr evs) = (bl1, Inr []))
       \<and> (list_all wellFormed evs
            \<longrightarrow> (\<exists>bl2 changes2. updateList bl (Inr evs) = (bl2, Inr changes2)
                     \<and> updateList bl2 (Inr evs) = (bl2, Inr [])))"
proof -
  from assms have d: "distinct (map (\<lambda>e. (ev_type e, state_key e)) evs)"
    and f: "\<forall>e \<in> set evs. rule_of e = None"
    and r: "\<forall>e \<in> set evs. redaction_of e \<noteq> None \<longrightarrow> \<not> hasRule e"
    by (auto simp: fromStore_def stripped_def list_all_iff)
  have twice: "updateList b1 (Inr evs) = (b1, Inr [])"
    if "updateList bl (Inr evs) = (b1, Inr c1)" for b1 c1
  proof -
    from that have "updateList_loop bl [] evs = (b1, Inr c1)"
      by (simp add: updateList_def)
    from all_settled_after [OF this d f r] have "\<forall>e \<in> set evs. settled b1 e" .
    from settled_pass [OF this] show ?thesis by (simp add: updateList_def)
  qed
  have "\<exists>bl2 changes2. updateList bl (Inr evs) = (bl2, Inr changes2)
          \<and> updateList bl2 (Inr evs) = (bl2, Inr [])"
    if "list_all wellFormed evs"
  proof -
    from updateList_loop_wellFormed [OF that, of bl "[]"] obtain bl2 changes2 where
      "updateList bl (Inr evs) = (bl2, Inr changes2)" by (auto simp: updateList_def)
    with twice show ?thesis by blast
  qed
  with twice show ?thesis by blast
qed

theorem updateList_idempotent_witness:
  "fromStore ex_state \<and> list_all wellFormed ex_state
 \<and> map_sum id (map changeType) (snd (updateList ex_empty (Inr ex_state)))
      = Inr [Added, Modified, Added]
 \<and> updateList ex_synced (Inr ex_state) = (ex_synced, Inr [])
 \<and> (\<exists>bl2 changes2. updateList ex_empty (Inr ex_state) = (bl2, Inr changes2)
        \<and> updateList bl2 (Inr ex_state) = (bl2, Inr []))"
proof -
  have h1: "fromStore ex_state" by code_simp
  have h2: "list_all wellFormed ex_state" by code_simp
  have h3: "map_sum id (map changeType) (snd (updateList ex_empty (Inr ex_state)))
      = Inr [Added, Modified, Added]" by code_simp
  then obtain changes1 where "snd (updateList ex_empty (Inr ex_state)) = Inr changes1"
    by (cases "snd (updateList ex_empty (Inr ex_state))") auto
  then have h4: "updateList ex_empty (Inr ex_state) = (ex_synced, Inr changes1)"
    by (simp add: ex_synced_def prod_eq_iff)
  from updateList_idempotent [OF h1, of ex_empty ex_synced changes1] h4
  have c1: "updateList ex_synced (Inr ex_state) = (ex_synced, Inr [])" by blast
  from updateList_idempotent [OF h1, of ex_empty] h2
  have c2: "\<exists>bl2 changes2. updateList ex_empty (Inr ex_state) = (bl2, Inr changes2)
        \<and> updateList bl2 (Inr ex_state) = (bl2, Inr [])" by blast
  from h1 h2 h3 c1 c2 show ?thesis by blast
qed


end
